theory Spec2Isabelle
  imports Complex_Main "HOL-Library.Word"
begin

section \<open>CPU range lists of cyclicdeadline.c\<close>

text \<open>
  The C program keeps the CPUs selected on the command line in a singly linked list of
  \<^verbatim>\<open>struct cpu_list { next; start_cpu; end_cpu; }\<close>. A node is a record, the chain of
  \<^verbatim>\<open>next\<close> pointers is the list order. CPU numbers are C \<^verbatim>\<open>int\<close>s; they are modelled as
  \<^typ>\<open>int\<close>, which agrees with the program as long as no value leaves the 32-bit range
  (signed overflow is undefined in C).
\<close>

record cpu_range =
  start_cpu :: int
  end_cpu :: int

type_synonym cpu_list = "cpu_range list"

subsection \<open>The C library functions the parser calls\<close>

definition isdigit :: "char \<Rightarrow> bool" where
  "isdigit c = (let n = (of_char c :: nat) in 48 \<le> n \<and> n \<le> 57)"

definition isspace :: "char \<Rightarrow> bool" where
  "isspace c = (let n = (of_char c :: nat) in n = 32 \<or> (9 \<le> n \<and> n \<le> 13))"

definition digit_val :: "char \<Rightarrow> int" where
  "digit_val c = int (of_char c) - 48"

text \<open>The value of the longest prefix of decimal digits, most significant digit first.\<close>

fun digits_val :: "int \<Rightarrow> string \<Rightarrow> int" where
  "digits_val acc [] = acc"
| "digits_val acc (c # cs) =
     (if isdigit c then digits_val (acc * 10 + digit_val c) cs else acc)"

text \<open>
  \<^verbatim>\<open>atoi\<close>: skip white space, read an optional sign, then the digits; 0 when there is no
  digit. (The result is the mathematical value; C leaves \<^verbatim>\<open>atoi\<close> undefined when it does
  not fit an \<^verbatim>\<open>int\<close>.)
\<close>

definition atoi :: "string \<Rightarrow> int" where
  "atoi s =
     (case dropWhile isspace s of
        [] \<Rightarrow> 0
      | c # cs \<Rightarrow>
          if c = CHR ''-'' then - digits_val 0 cs
          else if c = CHR ''+'' then digits_val 0 cs
          else digits_val 0 (c # cs))"

text \<open>\<^verbatim>\<open>while (isdigit(*p)) p++;\<close>\<close>

definition skip_digits :: "string \<Rightarrow> string" where
  "skip_digits p = dropWhile isdigit p"

text \<open>The text \<^verbatim>\<open>printf("%d")\<close> produces.\<close>

fun nat_digits :: "nat \<Rightarrow> string" where
  "nat_digits n =
     (if n < 10 then [char_of (48 + n)]
      else nat_digits (n div 10) @ [char_of (48 + n mod 10)])"

definition fmt_d :: "int \<Rightarrow> string" where
  "fmt_d i = (if i < 0 then CHR ''-'' # nat_digits (nat (- i)) else nat_digits (nat i))"

subsection \<open>add_cpus\<close>

text \<open>
  The inner loop of the concatenation branch: while the node after the current one starts
  at or before \<^verbatim>\<open>end_cpu + 1\<close>, the current node takes over its end and the node is
  unlinked. The function returns the current node's end and the remaining chain.
\<close>

fun absorb_next :: "int \<Rightarrow> int \<Rightarrow> cpu_list \<Rightarrow> int \<times> cpu_list" where
  "absorb_next cur_end e [] = (cur_end, [])"
| "absorb_next cur_end e (n # ns) =
     (if start_cpu n \<le> e + 1 then absorb_next (end_cpu n) e ns
      else (cur_end, n # ns))"

text \<open>
  \<^verbatim>\<open>add_cpus(&cpu_list, start_cpu, end_cpu)\<close>. The first equation is the \<^verbatim>\<open>!*cpu_list\<close>
  case reached by the search loop; the first branch of the second equation is one step of
  that loop; then follow "Look to concatinate", "Check for overlaps" and the final
  insertion, which links the new node \<^emph>\<open>behind\<close> the current one.
\<close>

fun add_cpus :: "cpu_list \<Rightarrow> int \<Rightarrow> int \<Rightarrow> cpu_list" where
  "add_cpus [] s e = [\<lparr>start_cpu = s, end_cpu = e\<rparr>]"
| "add_cpus (c # cs) s e =
     (if end_cpu c + 1 < s then c # add_cpus cs s e
      else if e > start_cpu c \<and> s \<le> end_cpu c + 1 then
        (let c1 = (if s < start_cpu c then c\<lparr>start_cpu := s\<rparr> else c);
             (ce, rest) = absorb_next (end_cpu c1) e cs;
             c2 = c1\<lparr>end_cpu := ce\<rparr>;
             c3 = (if end_cpu c2 < e then c2\<lparr>end_cpu := e\<rparr> else c2)
         in c3 # rest)
      else if e \<ge> start_cpu c - 1 then c\<lparr>start_cpu := s\<rparr> # cs
      else c # \<lparr>start_cpu = s, end_cpu = e\<rparr> # cs)"

subsection \<open>count_cpus, append_cpus, make_new_list\<close>

text \<open>
  \<^verbatim>\<open>count_cpus\<close> walks (and frees) the list; \<^verbatim>\<open>cpu_count\<close> is the global holding the
  number of configured processors.
\<close>

fun count_loop :: "int \<Rightarrow> cpu_list \<Rightarrow> int \<Rightarrow> bool \<Rightarrow> int \<times> bool" where
  "count_loop cpu_count [] cpus fail = (cpus, fail)"
| "count_loop cpu_count (l # ls) cpus fail =
     count_loop cpu_count ls (cpus + ((end_cpu l - start_cpu l) + 1))
       (if end_cpu l \<ge> cpu_count then True else fail)"

definition count_cpus :: "int \<Rightarrow> cpu_list \<Rightarrow> int" where
  "count_cpus cpu_count cl =
     (case count_loop cpu_count cl 0 False of (cpus, fail) \<Rightarrow> if fail then - 1 else cpus)"

text \<open>
  \<^verbatim>\<open>append_cpus(buf, start, end, comma, &total)\<close> writes the new text at offset
  \<^verbatim>\<open>*total\<close> of the (reallocated) buffer and adds its length to \<^verbatim>\<open>*total\<close>. A buffer is
  the text it holds; the NULL buffer the callers start with holds none.
\<close>

definition append_cpus :: "string \<Rightarrow> int \<Rightarrow> int \<Rightarrow> string \<Rightarrow> nat \<Rightarrow> string \<times> nat" where
  "append_cpus buf start_c end_c comma tot =
     (let txt = (if start_c = end_c then comma @ fmt_d start_c
                 else comma @ fmt_d start_c @ ''-'' @ fmt_d end_c)
      in (take tot buf @ txt, tot + length txt))"

fun new_list_loop :: "cpu_list \<Rightarrow> string \<Rightarrow> string \<Rightarrow> nat \<Rightarrow> string" where
  "new_list_loop [] buf comma tot = buf"
| "new_list_loop (c # cs) buf comma tot =
     (case append_cpus buf (start_cpu c) (end_cpu c) comma tot of
        (buf', tot') \<Rightarrow> new_list_loop cs buf' '','' tot')"

definition make_new_list :: "cpu_list \<Rightarrow> string \<Rightarrow> string" where
  "make_new_list cl buf = new_list_loop cl buf '''' 0"

subsection \<open>calc_nr_cpus\<close>

text \<open>\<^verbatim>\<open>*p\<close> on a NUL-terminated string: the first character, or NUL at the end.\<close>

definition peek :: "string \<Rightarrow> char" where
  "peek p = (case p of [] \<Rightarrow> CHR 0x00 | c # _ \<Rightarrow> c)"

text \<open>\<^verbatim>\<open>if (*p == ',') p++;\<close>\<close>

definition skip_comma :: "string \<Rightarrow> string" where
  "skip_comma p = (if peek p = CHR '','' then tl p else p)"

datatype parse_result = Err | Parsed cpu_list

text \<open>
  The \<^verbatim>\<open>for (p = setcpu; *p; )\<close> loop of \<^verbatim>\<open>calc_nr_cpus\<close>, with the list built so far.
  \<open>Err\<close> is \<^verbatim>\<open>goto err\<close>. Nothing in the loop forces \<^verbatim>\<open>p\<close> to move, so the loop is a
  partial function: \<open>None\<close> means that it never leaves.
\<close>

partial_function (option) calc_loop :: "string \<Rightarrow> cpu_list \<Rightarrow> parse_result option" where
  "calc_loop p cl =
     (if p = [] then Some (Parsed cl)
      else
        (let cpu = atoi p in
         if cpu < 0 \<or> (cpu = 0 \<and> peek p \<noteq> CHR ''0'') then Some Err
         else
           (let p1 = skip_digits p in
            if peek p1 = CHR ''-'' then
              (let p2 = tl p1; e = atoi p2 in
               if e < cpu \<or> (e = 0 \<and> peek p2 \<noteq> CHR ''0'') then Some Err
               else calc_loop (skip_comma (skip_digits p2)) (add_cpus cl cpu e))
            else calc_loop (skip_comma p1) (add_cpus cl cpu cpu))))"

declare calc_loop.simps [code]

text \<open>
  \<^verbatim>\<open>calc_nr_cpus(setcpu, &buf)\<close>: the returned \<^verbatim>\<open>int\<close> and the buffer. On \<^verbatim>\<open>err\<close> the
  buffer is left as it was and the result is -1.
\<close>

definition calc_nr_cpus :: "int \<Rightarrow> string \<Rightarrow> string \<Rightarrow> (int \<times> string) option" where
  "calc_nr_cpus cpu_count setcpu buf =
     (case calc_loop setcpu [] of
        None \<Rightarrow> None
      | Some Err \<Rightarrow> Some (- 1, buf)
      | Some (Parsed cl) \<Rightarrow> Some (count_cpus cpu_count cl, make_new_list cl buf))"

text \<open>
  A position at which one pass of the loop leaves \<^verbatim>\<open>p\<close> where it is: \<^verbatim>\<open>atoi\<close> reads a
  positive number there, although the character at \<^verbatim>\<open>p\<close> is neither a digit, nor the
  \<^verbatim>\<open>-\<close> nor the \<^verbatim>\<open>,\<close> that the loop steps over.
\<close>

definition no_progress :: "string \<Rightarrow> bool" where
  "no_progress p \<longleftrightarrow>
     p \<noteq> [] \<and> 0 < atoi p \<and> skip_digits p = p \<and> peek p \<noteq> CHR ''-'' \<and> peek p \<noteq> CHR '',''"

subsection \<open>make_other_cpu_list\<close>

text \<open>
  One pass of the \<^verbatim>\<open>while (*p && curr_cpu < cpu_count)\<close> loop moves \<^verbatim>\<open>p\<close> over the
  digits, over an optional \<^verbatim>\<open>-N\<close> and over one more character if there is one.
\<close>

definition other_advance :: "string \<Rightarrow> int \<Rightarrow> string \<times> int" where
  "other_advance p cpu =
     (let p1 = skip_digits p;
          (p2, cpu2) = (if peek p1 = CHR ''-''
                        then (skip_digits (tl p1), atoi (tl p1)) else (p1, cpu))
      in (if p2 \<noteq> [] then tl p2 else p2, cpu2))"

function other_loop ::
  "int \<Rightarrow> string \<Rightarrow> string \<Rightarrow> string \<Rightarrow> int \<Rightarrow> nat \<Rightarrow> string \<times> string \<times> int \<times> nat" where
  "other_loop cpu_count p cpus comma curr_cpu tot =
     (if p \<noteq> [] \<and> curr_cpu < cpu_count then
        (let cpu = atoi p;
             (cpus1, tot1, comma1) =
               (if cpu > curr_cpu
                then (case append_cpus cpus curr_cpu (cpu - 1) comma tot of
                        (b, t) \<Rightarrow> (b, t, '',''))
                else (cpus, tot, comma));
             (p', cpu') = other_advance p cpu
         in other_loop cpu_count p' cpus1 comma1 (cpu' + 1) tot1)
      else (cpus, comma, curr_cpu, tot))"
  by pat_completeness auto
termination
proof (relation "measure (\<lambda>(cpu_count, p, cpus, comma, curr_cpu, tot). length p)", goal_cases)
  case 1
  show ?case by simp
next
  case (2 cpu_count p cpus comma curr_cpu tot cpu upd cpus1 rest tot1 comma1 adv p' cpu')
  from 2(1) have ne: "p \<noteq> []" by simp
  from 2(6,7) have adv: "fst (other_advance p cpu) = p'" by (metis fst_conv)
  let ?p1 = "skip_digits p"
  have sd: "length (skip_digits q) \<le> length q" for q
    unfolding skip_digits_def by (rule length_dropWhile_le)
  have l1: "length ?p1 \<le> length p" by (rule sd)
  have "length (fst (other_advance p cpu)) < length p"
  proof (cases "peek ?p1 = CHR ''-''")
    case True
    then have "?p1 \<noteq> []" by (auto simp: peek_def)
    then have "length (tl ?p1) < length ?p1" by (cases ?p1) auto
    moreover have "length (skip_digits (tl ?p1)) \<le> length (tl ?p1)" by (rule sd)
    ultimately have "length (skip_digits (tl ?p1)) < length p" using l1 by linarith
    then show ?thesis using True
      by (cases "skip_digits (tl ?p1)") (auto simp: other_advance_def Let_def)
  next
    case False
    show ?thesis
    proof (cases ?p1)
      case Nil
      then show ?thesis using False ne by (simp add: other_advance_def Let_def)
    next
      case (Cons c cs)
      then show ?thesis using False l1 by (simp add: other_advance_def Let_def)
    qed
  qed
  with adv show ?case by simp
qed

definition make_other_cpu_list :: "int \<Rightarrow> string \<Rightarrow> string \<Rightarrow> string" where
  "make_other_cpu_list cpu_count setcpu cpus =
     (case other_loop cpu_count setcpu cpus '''' 0 0 of
        (cpus1, comma, curr_cpu, tot) \<Rightarrow>
          if curr_cpu < cpu_count
          then fst (append_cpus cpus1 curr_cpu (cpu_count - 1) comma tot)
          else cpus1)"

section \<open>Per-thread statistics and the period loop\<close>

type_synonym u64 = "64 word"
type_synonym u32 = "32 word"

text \<open>
  \<^verbatim>\<open>struct thread_stat\<close>, with the fields that the functions below read or write.
  \<^verbatim>\<open>cycles\<close> is an \<^verbatim>\<open>unsigned long\<close>; \<^verbatim>\<open>min\<close>, \<^verbatim>\<open>max\<close> and \<^verbatim>\<open>act\<close> are \<^verbatim>\<open>long\<close>s, kept
  as their 64 bits (\<open>sint\<close> reads the value that \<^verbatim>\<open>%ld\<close> prints). \<^verbatim>\<open>avg\<close> is a
  \<^verbatim>\<open>double\<close> that accumulates the sum of the latencies; it is a real number here, so the
  rounding of sums beyond 53 bits is not part of the model.
\<close>

record thread_stat =
  cycles :: u64
  min_stat :: u64
  max_stat :: u64
  act :: u64
  avg :: real
  tid :: int

text \<open>\<^verbatim>\<open>struct sched_data\<close> without the trace buffer.\<close>

record sched_data =
  runtime_us :: u64
  deadline_us :: u64
  stat :: thread_stat

text \<open>The slots come from \<^verbatim>\<open>calloc\<close>: every field is zero.\<close>

definition zero_stat :: thread_stat where
  "zero_stat = \<lparr>cycles = 0, min_stat = 0, max_stat = 0, act = 0, avg = 0, tid = 0\<rparr>"

definition zero_sched_data :: sched_data where
  "zero_sched_data = \<lparr>runtime_us = 0, deadline_us = 0, stat = zero_stat\<rparr>"

text \<open>
  The statistics update at the end of \<^verbatim>\<open>do_runtime\<close> (from \<^verbatim>\<open>diff = now - period\<close> on).
  \<^verbatim>\<open>diff\<close> is a \<^verbatim>\<open>u64\<close>, so both comparisons with the \<^verbatim>\<open>long\<close> fields are unsigned.
\<close>

definition record_diff :: "thread_stat \<Rightarrow> u64 \<Rightarrow> thread_stat" where
  "record_diff st diff =
     (let st1 = (if diff > max_stat st then st\<lparr>max_stat := diff\<rparr> else st);
          st2 = (if min_stat st1 = 0 \<or> diff < min_stat st1 then st1\<lparr>min_stat := diff\<rparr> else st1)
      in st2\<lparr>act := diff, avg := avg st2 + real (unat diff), cycles := cycles st2 + 1\<rparr>)"

text \<open>The period that \<^verbatim>\<open>do_runtime\<close> works with after its \<^verbatim>\<open>if (now < period)\<close> block.\<close>

definition adjust_period :: "u64 \<Rightarrow> u64 \<Rightarrow> u64" where
  "adjust_period now period = (if now < period then now else period)"

text \<open>
  \<^verbatim>\<open>do_runtime(tid, sd, period)\<close>. \<open>now\<close> is what \<^verbatim>\<open>get_time_us()\<close> returns inside the
  call. The result is the returned \<^verbatim>\<open>next_period\<close> and the updated \<^verbatim>\<open>*sd\<close>; the trace
  messages are left out.
\<close>

definition do_runtime :: "u64 \<Rightarrow> sched_data \<Rightarrow> u64 \<Rightarrow> u64 \<times> sched_data" where
  "do_runtime now sd period =
     (let period1 = adjust_period now period;
          next_period = period1 + deadline_us sd;
          diff = now - period1
      in (next_period, sd\<lparr>stat := record_diff (stat sd) diff\<rparr>))"

text \<open>
  The body of the \<^verbatim>\<open>while (!shutdown)\<close> loop of \<^verbatim>\<open>run_deadline\<close>, run once for each
  clock reading of the list: \<^verbatim>\<open>period = do_runtime(tid, sd, period)\<close>.
\<close>

fun run_cycles :: "u64 list \<Rightarrow> sched_data \<Rightarrow> u64 \<Rightarrow> u64 \<times> sched_data" where
  "run_cycles [] sd period = (period, sd)"
| "run_cycles (now # nows) sd period =
     (case do_runtime now sd period of (period', sd') \<Rightarrow> run_cycles nows sd' period')"

text \<open>
  The latencies that the cycles of such a run record: they depend on the clock readings,
  the deadline and the first period start, not on the statistics.
\<close>

fun cycle_diffs :: "u64 list \<Rightarrow> u64 \<Rightarrow> u64 \<Rightarrow> u64 list" where
  "cycle_diffs [] dl period = []"
| "cycle_diffs (now # nows) dl period =
     (now - adjust_period now period) # cycle_diffs nows dl (adjust_period now period + dl)"

section \<open>Reports\<close>

text \<open>
  A C \<^verbatim>\<open>double\<close> division: a zero divisor gives no number but NaN or an infinity, which
  \<^verbatim>\<open>printf\<close> prints as \<^verbatim>\<open>nan\<close> and \<^verbatim>\<open>inf\<close>.
\<close>

datatype double_val = Finite real | NaN | PlusInf | MinusInf

definition double_div :: "real \<Rightarrow> real \<Rightarrow> double_val" where
  "double_div x y =
     (if y = 0 then (if x = 0 then NaN else if 0 < x then PlusInf else MinusInf)
      else Finite (x / y))"

text \<open>The cast \<^verbatim>\<open>(long) x\<close> of a \<^verbatim>\<open>double\<close> drops the fraction.\<close>

definition long_of_double :: "real \<Rightarrow> int" where
  "long_of_double x = (if 0 \<le> x then \<lfloor>x\<rfloor> else \<lceil>x\<rceil>)"

text \<open>
  \<^verbatim>\<open>print_stat(fp, sd, index, verbose, quiet)\<close> for \<^verbatim>\<open>verbose = 0\<close>, which is what both of
  its callers pass: the arguments of the \<^verbatim>\<open>fprintf\<close>, or nothing when \<^verbatim>\<open>quiet\<close> is 1.
\<close>

record stat_line =
  line_index :: int
  line_tid :: int
  line_interval :: u64
  line_cycles :: u64
  line_min :: int
  line_act :: int
  line_avg :: int
  line_max :: int

definition print_stat :: "sched_data \<Rightarrow> int \<Rightarrow> int \<Rightarrow> stat_line option" where
  "print_stat sd index quiet =
     (let st = stat sd in
      if quiet \<noteq> 1 then
        Some \<lparr>line_index = index, line_tid = tid st, line_interval = deadline_us sd,
              line_cycles = cycles st, line_min = sint (min_stat st), line_act = sint (act st),
              line_avg = (if cycles st \<noteq> 0
                          then long_of_double (avg st / real (unat (cycles st))) else 0),
              line_max = sint (max_stat st)\<rparr>
      else None)"

text \<open>
  \<^verbatim>\<open>write_stats\<close>: the values of one \<^verbatim>\<open>"thread"\<close> entry of the JSON document, for each
  slot in turn. The average is the plain quotient \<^verbatim>\<open>s->avg/s->cycles\<close>.
\<close>

record json_thread =
  json_cycles :: int
  json_min :: int
  json_max :: int
  json_avg :: double_val

definition write_thread :: "thread_stat \<Rightarrow> json_thread" where
  "write_thread s =
     \<lparr>json_cycles = sint (cycles s), json_min = sint (min_stat s), json_max = sint (max_stat s),
      json_avg = double_div (avg s) (real (unat (cycles s)))\<rparr>"

definition write_stats :: "sched_data list \<Rightarrow> json_thread list" where
  "write_stats sds = map (\<lambda>sd. write_thread (stat sd)) sds"

section \<open>The schedule set up by main\<close>

datatype fatal = HrTickMissing | RuntimeMissed | SetupStep1 | SetupStep2

text \<open>C's integer division truncates towards zero.\<close>

definition c_div :: "int \<Rightarrow> int \<Rightarrow> int" where
  "c_div a b = sgn a * sgn b * (\<bar>a\<bar> div \<bar>b\<bar>)"

text \<open>
  \<^verbatim>\<open>int percent = 60; ... if (nr_threads > nr_cpus) percent = nr_cpus * 80 / nr_threads;\<close>
\<close>

definition duty_percent :: "int \<Rightarrow> int \<Rightarrow> int" where
  "duty_percent nr_cpus nr_threads =
     (if nr_threads > nr_cpus then c_div (nr_cpus * 80) nr_threads else 60)"

text \<open>
  The loop "Set up the data while sill in SCHED_FIFO". \<^verbatim>\<open>interval\<close> and \<^verbatim>\<open>step\<close> are
  \<^verbatim>\<open>unsigned int\<close>s, so \<^verbatim>\<open>interval * percent / 100\<close> is computed in 32 bits and then stored
  in the \<^verbatim>\<open>u64\<close> field. Each pass reads the clock three times: \<^verbatim>\<open>start_period\<close>, the
  reading inside \<^verbatim>\<open>do_runtime\<close>, and \<^verbatim>\<open>end_period\<close>; the list holds these readings, one
  triple for each of the \<^verbatim>\<open>nr_threads\<close> passes. \<open>hr_tick\<close> is the answer of
  \<^verbatim>\<open>setup_hr_tick()\<close>.
\<close>

fun setup_loop ::
  "bool \<Rightarrow> u32 \<Rightarrow> u32 \<Rightarrow> u32 \<Rightarrow> (u64 \<times> u64 \<times> u64) list \<Rightarrow> fatal + sched_data list" where
  "setup_loop hr_tick interval step percent [] = Inr []"
| "setup_loop hr_tick interval step percent ((start_period, now, end_period) # clk) =
     (let runtime = (ucast (interval * percent div 100) :: u64) in
      if runtime < 2000 \<and> \<not> hr_tick then Inl HrTickMissing
      else
        (let sd = zero_sched_data\<lparr>runtime_us := runtime, deadline_us := ucast interval\<rparr>;
             sd' = snd (do_runtime now sd start_period)
         in if end_period - start_period > runtime_us sd' then Inl RuntimeMissed
            else (case setup_loop hr_tick (interval + step) step percent clk of
                    Inl f \<Rightarrow> Inl f
                  | Inr sds \<Rightarrow> Inr (sd' # sds))))"

section \<open>The start-up protocol of main and the deadline threads\<close>

text \<open>
  \<^verbatim>\<open>main\<close> creates \<^verbatim>\<open>nr_threads\<close> threads that run \<^verbatim>\<open>run_deadline\<close> and meets them at a
  barrier for \<^verbatim>\<open>nr_threads + 1\<close> parties, three times. The threads share the flag
  \<^verbatim>\<open>shutdown\<close>. The model is an interleaving of atomic steps; a step is the code of one
  thread up to and including its next access to the flag or to the barrier. Program
  counters are named after the statement a thread is about to execute.
\<close>

datatype worker_pc =
    W_getattr \<comment> \<open>about to call the first \<^verbatim>\<open>sched_getattr\<close>\<close>
  | W_getattr_failed \<comment> \<open>\<^verbatim>\<open>shutdown = 1\<close> done, about to wait at the barrier\<close>
  | W_wait1 | W_wait1_failed \<comment> \<open>blocked in the first \<^verbatim>\<open>pthread_barrier_wait\<close>\<close>
  | W_prepare \<comment> \<open>fills in \<^verbatim>\<open>attr\<close>, prints, then waits\<close>
  | W_wait2
  | W_setattr \<comment> \<open>about to call \<^verbatim>\<open>sched_setattr\<close>\<close>
  | W_setattr_failed \<comment> \<open>\<^verbatim>\<open>shutdown = 1\<close> done, about to wait at the barrier\<close>
  | W_wait3 | W_wait3_failed
  | W_exiting string \<comment> \<open>about to call \<^verbatim>\<open>pthread_exit\<close> with this message\<close>
  | W_get_period \<comment> \<open>\<^verbatim>\<open>sched_yield(); period = get_time_us();\<close>\<close>
  | W_loop \<comment> \<open>at the test of \<^verbatim>\<open>while (!shutdown)\<close>\<close>
  | W_getattr2 \<comment> \<open>the \<^verbatim>\<open>sched_getattr\<close> after the loop\<close>
  | W_exited "string option" \<comment> \<open>thread finished, with its result\<close>

datatype main_pc =
    M_barrier1 \<comment> \<open>threads created, about to wait at the barrier\<close>
  | M_wait1
  | M_check1 \<comment> \<open>\<^verbatim>\<open>if (shutdown) fatal("... step 1")\<close>\<close>
  | M_cpuset \<comment> \<open>the cpuset block and the \<^verbatim>\<open>printf\<close>, then the second barrier\<close>
  | M_wait2
  | M_check2 \<comment> \<open>\<^verbatim>\<open>if (shutdown) fatal("... step 2")\<close>\<close>
  | M_barrier3
  | M_wait3
  | M_signals \<comment> \<open>installs the signal handlers and the alarm\<close>
  | M_loop \<comment> \<open>at the test of \<^verbatim>\<open>while (!shutdown)\<close> in \<^verbatim>\<open>loop\<close>\<close>
  | M_join nat \<comment> \<open>about to join thread \<open>i\<close>\<close>
  | M_returned \<comment> \<open>\<^verbatim>\<open>return 0\<close>\<close>
  | M_fatal fatal \<comment> \<open>\<^verbatim>\<open>fatal(...)\<close> has ended the process\<close>

text \<open>What the system calls of one thread answer.\<close>

record worker_env =
  getattr_ok :: bool
  setattr_ok :: bool
  getattr2_ok :: bool

text \<open>
  \<open>cycles_run\<close> counts, for each thread, the calls of \<^verbatim>\<open>do_runtime\<close> that the thread itself
  has made in its loop.
\<close>

record sys_state =
  shutdown :: bool
  mpc :: main_pc
  wpc :: "worker_pc list"
  cycles_run :: "nat list"
  handlers :: bool

definition init_state :: "worker_env list \<Rightarrow> sys_state" where
  "init_state env =
     \<lparr>shutdown = False, mpc = M_barrier1, wpc = replicate (length env) W_getattr,
      cycles_run = replicate (length env) 0, handlers = False\<rparr>"

fun waiting_w :: "worker_pc \<Rightarrow> bool" where
  "waiting_w W_wait1 = True"
| "waiting_w W_wait1_failed = True"
| "waiting_w W_wait2 = True"
| "waiting_w W_wait3 = True"
| "waiting_w W_wait3_failed = True"
| "waiting_w _ = False"

fun waiting_m :: "main_pc \<Rightarrow> bool" where
  "waiting_m M_wait1 = True"
| "waiting_m M_wait2 = True"
| "waiting_m M_wait3 = True"
| "waiting_m _ = False"

text \<open>Where a thread continues when \<^verbatim>\<open>pthread_barrier_wait\<close> returns.\<close>

fun release_w :: "worker_pc \<Rightarrow> worker_pc" where
  "release_w W_wait1 = W_prepare"
| "release_w W_wait1_failed = W_exiting ''Failed sched_getattr''"
| "release_w W_wait2 = W_setattr"
| "release_w W_wait3 = W_get_period"
| "release_w W_wait3_failed = W_exiting ''Failed sched_setattr''"
| "release_w pc = pc"

fun release_m :: "main_pc \<Rightarrow> main_pc" where
  "release_m M_wait1 = M_check1"
| "release_m M_wait2 = M_check2"
| "release_m M_wait3 = M_signals"
| "release_m pc = pc"

text \<open>
  The barrier, applied after an arrival: when \<^verbatim>\<open>main\<close> and every thread are blocked in
  \<^verbatim>\<open>pthread_barrier_wait\<close>, the \<^verbatim>\<open>nr_threads + 1\<close> parties are complete and all continue.
\<close>

definition barrier :: "sys_state \<Rightarrow> sys_state" where
  "barrier s =
     (if waiting_m (mpc s) \<and> list_all waiting_w (wpc s)
      then s\<lparr>mpc := release_m (mpc s), wpc := map release_w (wpc s)\<rparr>
      else s)"

text \<open>After \<^verbatim>\<open>return\<close> from \<^verbatim>\<open>main\<close> or \<^verbatim>\<open>fatal\<close> no thread runs any more.\<close>

fun process_gone :: "main_pc \<Rightarrow> bool" where
  "process_gone M_returned = True"
| "process_gone (M_fatal f) = True"
| "process_gone _ = False"

text \<open>One step of \<^verbatim>\<open>main\<close>; \<open>None\<close> when it is blocked or has finished.\<close>

fun step_main :: "sys_state \<Rightarrow> sys_state option" where
  "step_main s =
     (case mpc s of
        M_barrier1 \<Rightarrow> Some (barrier (s\<lparr>mpc := M_wait1\<rparr>))
      | M_check1 \<Rightarrow> Some (s\<lparr>mpc := (if shutdown s then M_fatal SetupStep1 else M_cpuset)\<rparr>)
      | M_cpuset \<Rightarrow> Some (barrier (s\<lparr>mpc := M_wait2\<rparr>))
      | M_check2 \<Rightarrow> Some (s\<lparr>mpc := (if shutdown s then M_fatal SetupStep2 else M_barrier3)\<rparr>)
      | M_barrier3 \<Rightarrow> Some (barrier (s\<lparr>mpc := M_wait3\<rparr>))
      | M_signals \<Rightarrow> Some (s\<lparr>mpc := M_loop, handlers := True\<rparr>)
      | M_loop \<Rightarrow> Some (s\<lparr>mpc := (if shutdown s then M_join 0 else M_loop)\<rparr>)
      | M_join i \<Rightarrow>
          if i < length (wpc s) then
            (case wpc s ! i of
               W_exited res \<Rightarrow> Some (s\<lparr>mpc := M_join (i + 1)\<rparr>)
             | _ \<Rightarrow> None)
          else Some (s\<lparr>mpc := M_returned\<rparr>)
      | _ \<Rightarrow> None)"

text \<open>One step of thread \<open>i\<close>, running \<^verbatim>\<open>run_deadline\<close>.\<close>

fun step_worker :: "worker_env list \<Rightarrow> nat \<Rightarrow> sys_state \<Rightarrow> sys_state option" where
  "step_worker env i s =
     (if process_gone (mpc s) then None
      else if i < length (wpc s) \<and> i < length env then
        (case wpc s ! i of
           W_getattr \<Rightarrow>
             if getattr_ok (env ! i) then Some (barrier (s\<lparr>wpc := (wpc s)[i := W_wait1]\<rparr>))
             else Some (s\<lparr>shutdown := True, wpc := (wpc s)[i := W_getattr_failed]\<rparr>)
         | W_getattr_failed \<Rightarrow> Some (barrier (s\<lparr>wpc := (wpc s)[i := W_wait1_failed]\<rparr>))
         | W_prepare \<Rightarrow> Some (barrier (s\<lparr>wpc := (wpc s)[i := W_wait2]\<rparr>))
         | W_setattr \<Rightarrow>
             if setattr_ok (env ! i) then Some (barrier (s\<lparr>wpc := (wpc s)[i := W_wait3]\<rparr>))
             else Some (s\<lparr>shutdown := True, wpc := (wpc s)[i := W_setattr_failed]\<rparr>)
         | W_setattr_failed \<Rightarrow> Some (barrier (s\<lparr>wpc := (wpc s)[i := W_wait3_failed]\<rparr>))
         | W_exiting msg \<Rightarrow> Some (s\<lparr>wpc := (wpc s)[i := W_exited (Some msg)]\<rparr>)
         | W_get_period \<Rightarrow> Some (s\<lparr>wpc := (wpc s)[i := W_loop]\<rparr>)
         | W_loop \<Rightarrow>
             if shutdown s then Some (s\<lparr>wpc := (wpc s)[i := W_getattr2]\<rparr>)
             else Some (s\<lparr>cycles_run := (cycles_run s)[i := cycles_run s ! i + 1]\<rparr>)
         | W_getattr2 \<Rightarrow>
             Some (s\<lparr>wpc := (wpc s)[i := W_exited
               (if getattr2_ok (env ! i) then None else Some ''Failed second sched_getattr'')]\<rparr>)
         | _ \<Rightarrow> None)
      else None)"

text \<open>
  The actors: \<^verbatim>\<open>main\<close>, a thread, or the delivery of SIGINT, SIGTERM or SIGALRM to the
  handler \<^verbatim>\<open>sighand\<close> once it is installed.
\<close>

datatype actor = Main | Worker nat | Signal

fun sys_step :: "worker_env list \<Rightarrow> actor \<Rightarrow> sys_state \<Rightarrow> sys_state option" where
  "sys_step env Main s = (if process_gone (mpc s) then None else step_main s)"
| "sys_step env (Worker i) s = step_worker env i s"
| "sys_step env Signal s =
     (if handlers s \<and> \<not> process_gone (mpc s) then Some (s\<lparr>shutdown := True\<rparr>) else None)"

text \<open>A schedule is the list of actors in the order of their steps.\<close>

fun sys_run :: "worker_env list \<Rightarrow> actor list \<Rightarrow> sys_state \<Rightarrow> sys_state option" where
  "sys_run env [] s = Some s"
| "sys_run env (a # as) s =
     (case sys_step env a s of None \<Rightarrow> None | Some s' \<Rightarrow> sys_run env as s')"

subsection \<open>Phases\<close>

text \<open>
  The number of barriers a participant has passed, read off its program counter, and the
  program counters of a thread whose \<^verbatim>\<open>sched_setattr\<close> has failed.
\<close>

fun phase_w :: "worker_pc \<Rightarrow> nat" where
  "phase_w W_getattr = 0"
| "phase_w W_getattr_failed = 0"
| "phase_w W_wait1 = 0"
| "phase_w W_wait1_failed = 0"
| "phase_w W_prepare = 1"
| "phase_w W_wait2 = 1"
| "phase_w W_setattr = 2"
| "phase_w W_setattr_failed = 2"
| "phase_w W_wait3 = 2"
| "phase_w W_wait3_failed = 2"
| "phase_w (W_exiting msg) = (if msg = ''Failed sched_getattr'' then 1 else 3)"
| "phase_w W_get_period = 3"
| "phase_w W_loop = 3"
| "phase_w W_getattr2 = 3"
| "phase_w (W_exited res) = (if res = Some ''Failed sched_getattr'' then 1 else 3)"

fun phase_m :: "main_pc \<Rightarrow> nat" where
  "phase_m M_barrier1 = 0"
| "phase_m M_wait1 = 0"
| "phase_m M_check1 = 1"
| "phase_m M_cpuset = 1"
| "phase_m M_wait2 = 1"
| "phase_m M_check2 = 2"
| "phase_m M_barrier3 = 2"
| "phase_m M_wait3 = 2"
| "phase_m M_signals = 3"
| "phase_m M_loop = 3"
| "phase_m (M_join i) = 3"
| "phase_m M_returned = 3"
| "phase_m (M_fatal f) = (if f = SetupStep1 then 1 else 2)"

fun setattr_failed :: "worker_pc \<Rightarrow> bool" where
  "setattr_failed W_setattr_failed = True"
| "setattr_failed W_wait3_failed = True"
| "setattr_failed (W_exiting msg) = (msg = ''Failed sched_setattr'')"
| "setattr_failed (W_exited res) = (res = Some ''Failed sched_setattr'')"
| "setattr_failed _ = False"

text \<open>
  The invariant of the protocol: all participants are in the same phase; a failed
  \<^verbatim>\<open>sched_setattr\<close> has raised the flag; and once a thread has run a cycle, every thread is
  past the third barrier with its attributes applied.
\<close>

definition startup_inv :: "worker_env list \<Rightarrow> sys_state \<Rightarrow> bool" where
  "startup_inv env s \<longleftrightarrow>
     length (wpc s) = length env \<and> length (cycles_run s) = length env \<and>
     (\<forall>pc\<in>set (wpc s). phase_w pc = phase_m (mpc s)) \<and>
     ((\<exists>pc\<in>set (wpc s). setattr_failed pc) \<longrightarrow> shutdown s) \<and>
     ((\<exists>c\<in>set (cycles_run s). 0 < c) \<longrightarrow>
        (\<forall>pc\<in>set (wpc s). phase_w pc = 3 \<and> \<not> setattr_failed pc))"

text \<open>
  The program counters of a thread whose first \<^verbatim>\<open>sched_getattr\<close> has failed, and those of
  \<^verbatim>\<open>main\<close> once its "step 1" test has found the flag down.
\<close>

fun getattr_failed :: "worker_pc \<Rightarrow> bool" where
  "getattr_failed W_getattr_failed = True"
| "getattr_failed W_wait1_failed = True"
| "getattr_failed (W_exiting msg) = (msg = ''Failed sched_getattr'')"
| "getattr_failed (W_exited res) = (res = Some ''Failed sched_getattr'')"
| "getattr_failed _ = False"

fun passed_check1 :: "main_pc \<Rightarrow> bool" where
  "passed_check1 M_barrier1 = False"
| "passed_check1 M_wait1 = False"
| "passed_check1 M_check1 = False"
| "passed_check1 (M_fatal f) = (f \<noteq> SetupStep1)"
| "passed_check1 _ = True"

text \<open>
  A second invariant: the barrier never leaves all its parties blocked, and a failed
  \<^verbatim>\<open>sched_getattr\<close> has raised the flag before \<^verbatim>\<open>main\<close> makes its "step 1" test.
\<close>

definition barrier_inv :: "sys_state \<Rightarrow> bool" where
  "barrier_inv s \<longleftrightarrow>
     \<not> (waiting_m (mpc s) \<and> list_all waiting_w (wpc s)) \<and>
     ((\<exists>pc\<in>set (wpc s). getattr_failed pc) \<longrightarrow> shutdown s \<and> \<not> passed_check1 (mpc s))"

subsection \<open>A bound on the steps that remain\<close>

text \<open>
  For each program counter, a bound on the steps its thread can still take once the flag is
  up; for \<^verbatim>\<open>main\<close> the bound depends on the number \<open>n\<close> of threads it has to join.
\<close>

fun rank_w :: "worker_pc \<Rightarrow> nat" where
  "rank_w W_getattr = 9"
| "rank_w W_getattr_failed = 3"
| "rank_w W_wait1 = 8"
| "rank_w W_wait1_failed = 2"
| "rank_w W_prepare = 7"
| "rank_w W_wait2 = 6"
| "rank_w W_setattr = 5"
| "rank_w W_setattr_failed = 3"
| "rank_w W_wait3 = 4"
| "rank_w W_wait3_failed = 2"
| "rank_w (W_exiting msg) = 1"
| "rank_w W_get_period = 3"
| "rank_w W_loop = 2"
| "rank_w W_getattr2 = 1"
| "rank_w (W_exited res) = 0"

fun rank_m :: "nat \<Rightarrow> main_pc \<Rightarrow> nat" where
  "rank_m n M_barrier1 = n + 11"
| "rank_m n M_wait1 = n + 10"
| "rank_m n M_check1 = n + 9"
| "rank_m n M_cpuset = n + 8"
| "rank_m n M_wait2 = n + 7"
| "rank_m n M_check2 = n + 6"
| "rank_m n M_barrier3 = n + 5"
| "rank_m n M_wait3 = n + 4"
| "rank_m n M_signals = n + 3"
| "rank_m n M_loop = n + 2"
| "rank_m n (M_join i) = 1 + (n - i)"
| "rank_m n M_returned = 0"
| "rank_m n (M_fatal f) = 0"

definition remaining :: "sys_state \<Rightarrow> nat" where
  "remaining s = rank_m (length (wpc s)) (mpc s) + (\<Sum>pc\<leftarrow>wpc s. rank_w pc)"

section \<open>Properties of the CPU range parser\<close>

subsection \<open>Insertion order\<close>

text \<open>
  Claim C1 says that inserting the same intervals through \<^verbatim>\<open>add_cpus\<close> in any order gives
  the same ordered, merged list and the same rendered string. The code does not do this:
  an interval that lies wholly before the node where the search stops is linked behind
  that node. Inserting CPU 1 and CPU 5 gives the list 1,5 in one order and the list 5,1 in
  the other, and \<^verbatim>\<open>calc_nr_cpus\<close> renders the two command lines \<^verbatim>\<open>1,5\<close> and \<^verbatim>\<open>5,1\<close>
  differently.
\<close>

theorem add_cpus_order_dependent:
  "add_cpus (add_cpus [] 1 1) 5 5 =
     [\<lparr>start_cpu = 1, end_cpu = 1\<rparr>, \<lparr>start_cpu = 5, end_cpu = 5\<rparr>] \<and>
   add_cpus (add_cpus [] 5 5) 1 1 =
     [\<lparr>start_cpu = 5, end_cpu = 5\<rparr>, \<lparr>start_cpu = 1, end_cpu = 1\<rparr>] \<and>
   calc_nr_cpus 8 ''1,5'' [] = Some (2, ''1,5'') \<and>
   calc_nr_cpus 8 ''5,1'' [] = Some (2, ''5,1'')"
  by code_simp

text \<open>
  The list that is out of order also misleads \<^verbatim>\<open>make_other_cpu_list\<close>, which reads the
  rendered string from left to right: for \<^verbatim>\<open>5,1\<close> on 8 CPUs the "other" CPUs come out as
  \<^verbatim>\<open>0-4,2-7\<close>, which contains the selected CPUs 1 and 5.
\<close>

lemma other_cpus_of_unordered_list:
  "make_other_cpu_list 8 ''5,1'' [] = ''0-4,2-7'' \<and>
   make_other_cpu_list 8 ''1,5'' [] = ''0,2-4,6-7''"
  by code_simp

subsection \<open>The worked example\<close>

text \<open>
  Claim C5: for the expression \<^verbatim>\<open>0,2-4,5\<close> and 8 CPUs the parser builds the intervals
  [0,0] and [2,5] (5 is adjacent to 2-4 and is absorbed), \<^verbatim>\<open>calc_nr_cpus\<close> counts 5 CPUs
  and renders \<^verbatim>\<open>0,2-5\<close>, and \<^verbatim>\<open>make_other_cpu_list\<close> renders the complement of that
  string over the CPUs 0 to 7 as \<^verbatim>\<open>1,6-7\<close>.
\<close>

theorem parse_render_complement_example:
  "calc_loop ''0,2-4,5'' [] =
     Some (Parsed [\<lparr>start_cpu = 0, end_cpu = 0\<rparr>, \<lparr>start_cpu = 2, end_cpu = 5\<rparr>]) \<and>
   calc_nr_cpus 8 ''0,2-4,5'' [] = Some (5, ''0,2-5'') \<and>
   make_other_cpu_list 8 ''0,2-5'' [] = ''1,6-7''"
  by code_simp

subsection \<open>Malformed tokens\<close>

text \<open>
  If the loop of \<^verbatim>\<open>calc_nr_cpus\<close> returns at all, it never stood at a position where a pass
  makes no progress: by induction over the definition of the loop as a least fixed point.
\<close>

lemma calc_loop_returns_moves:
  assumes "calc_loop p cl = Some r"
  shows "\<not> no_progress p"
proof (rule calc_loop.raw_induct [where P = "\<lambda>p cl r. \<not> no_progress p", OF _ assms])
  fix f p cl r
  assume IH: "\<And>p cl r. f p cl = Some r \<Longrightarrow> \<not> no_progress p"
    and body: "(if p = [] then Some (Parsed cl)
      else
        (let cpu = atoi p in
         if cpu < 0 \<or> (cpu = 0 \<and> peek p \<noteq> CHR ''0'') then Some Err
         else
           (let p1 = skip_digits p in
            if peek p1 = CHR ''-'' then
              (let p2 = tl p1; e = atoi p2 in
               if e < cpu \<or> (e = 0 \<and> peek p2 \<noteq> CHR ''0'') then Some Err
               else f (skip_comma (skip_digits p2)) (add_cpus cl cpu e))
            else f (skip_comma p1) (add_cpus cl cpu cpu)))) = Some r"
  show "\<not> no_progress p"
  proof
    assume stuck: "no_progress p"
    with body have "f p (add_cpus cl (atoi p) (atoi p)) = Some r"
      by (simp add: Let_def skip_comma_def no_progress_def)
    with IH stuck show False by blast
  qed
qed

lemma calc_loop_stuck: "no_progress p \<Longrightarrow> calc_loop p cl = None"
  using calc_loop_returns_moves [of p cl] by (cases "calc_loop p cl") auto

lemma no_progress_examples:
  "no_progress ''+1''" "no_progress ''+1x''" "no_progress '' 2''"
  by (simp_all add: no_progress_def atoi_def skip_digits_def peek_def isdigit_def isspace_def
      digit_val_def)

lemma calc_loop_comma_space:
  "calc_loop ''1, 2'' [] = calc_loop '' 2'' [\<lparr>start_cpu = 1, end_cpu = 1\<rparr>]"
  by (subst calc_loop.simps)
    (simp add: atoi_def skip_digits_def skip_comma_def peek_def isdigit_def isspace_def
      digit_val_def)

text \<open>
  Claim C6 says that every expression with a malformed token makes \<^verbatim>\<open>calc_nr_cpus\<close> return
  -1. The range \<^verbatim>\<open>3-1\<close> is rejected in this way, and so is every token that \<^verbatim>\<open>atoi\<close> reads
  as 0 or as a negative number. A token that \<^verbatim>\<open>atoi\<close> accepts although it does not start
  with a digit (white space or a \<^verbatim>\<open>+\<close> before a positive number) is not rejected: \<^verbatim>\<open>p\<close>
  stays where it is and the loop runs for ever. For the expressions \<^verbatim>\<open>1, 2\<close> (a blank after
  the comma), \<^verbatim>\<open>+1x\<close> and \<^verbatim>\<open>+1\<close> the function does not return -1; it does not return.
\<close>

theorem calc_nr_cpus_never_returns:
  "calc_nr_cpus cpu_count ''1, 2'' buf = None \<and>
   calc_nr_cpus cpu_count ''+1x'' buf = None \<and>
   calc_nr_cpus cpu_count ''+1'' buf = None"
  by (simp add: calc_nr_cpus_def calc_loop_comma_space calc_loop_stuck no_progress_examples)

text \<open>What the loop does reject: a first number that is negative or not a number, and a range
  whose end is below its start or not a number.\<close>

lemma calc_loop_rejects_number:
  "p \<noteq> [] \<Longrightarrow> atoi p < 0 \<or> (atoi p = 0 \<and> peek p \<noteq> CHR ''0'') \<Longrightarrow> calc_loop p cl = Some Err"
  by (subst calc_loop.simps) (simp add: Let_def)

lemma calc_loop_rejects_range:
  assumes "p \<noteq> []" and "0 < atoi p \<or> (atoi p = 0 \<and> peek p = CHR ''0'')"
    and "peek (skip_digits p) = CHR ''-''"
    and "atoi (tl (skip_digits p)) < atoi p \<or>
         (atoi (tl (skip_digits p)) = 0 \<and> peek (tl (skip_digits p)) \<noteq> CHR ''0'')"
  shows "calc_loop p cl = Some Err"
  using assms by (subst calc_loop.simps) (auto simp: Let_def)

lemma calc_nr_cpus_reversed_range: "calc_nr_cpus cpu_count ''3-1'' buf = Some (- 1, buf)"
  by (simp add: calc_nr_cpus_def calc_loop.simps atoi_def skip_digits_def peek_def isdigit_def
      isspace_def digit_val_def)

section \<open>Properties of the period loop\<close>

subsection \<open>Drift resynchronisation\<close>

text \<open>
  Claim C3: when the clock reading \<open>now\<close> is earlier than the intended period start,
  \<^verbatim>\<open>do_runtime\<close> takes \<open>now\<close> as the period start (the next period is \<open>now\<close> plus the
  deadline), and the latency it records for the cycle is exactly 0, which is not negative
  when read as the \<^verbatim>\<open>long\<close> that the field is; the sum of the latencies is unchanged.
\<close>

theorem do_runtime_resync:
  assumes "now < period"
  shows "adjust_period now period = now \<and>
         fst (do_runtime now sd period) = now + deadline_us sd \<and>
         act (stat (snd (do_runtime now sd period))) = 0 \<and>
         0 \<le> sint (act (stat (snd (do_runtime now sd period)))) \<and>
         avg (stat (snd (do_runtime now sd period))) = avg (stat sd)"
  using assms by (simp add: do_runtime_def adjust_period_def record_diff_def Let_def)

theorem do_runtime_resync_witness:
  "(100 :: u64) < 150 \<and>
   adjust_period 100 150 = 100 \<and>
   fst (do_runtime 100 (zero_sched_data\<lparr>deadline_us := 1000\<rparr>) 150) = 1100 \<and>
   act (stat (snd (do_runtime 100 (zero_sched_data\<lparr>deadline_us := 1000\<rparr>) 150))) = 0 \<and>
   0 \<le> sint (act (stat (snd (do_runtime 100 (zero_sched_data\<lparr>deadline_us := 1000\<rparr>) 150))))"
  using do_runtime_resync [of 100 150 "zero_sched_data\<lparr>deadline_us := 1000\<rparr>"]
  by simp

text \<open>
  In every call the period start that is used lies at or before \<open>now\<close>, so the subtraction
  \<open>now - period\<close> does not wrap: the recorded latency is the distance between the two.
\<close>

lemma do_runtime_latency_no_wrap:
  "adjust_period now period \<le> now \<and>
   unat (act (stat (snd (do_runtime now sd period)))) = unat now - unat (adjust_period now period)"
proof -
  have le: "adjust_period now period \<le> now" by (auto simp: adjust_period_def not_less)
  then have "unat (now - adjust_period now period) = unat now - unat (adjust_period now period)"
    by (rule unat_sub)
  then show ?thesis using le by (simp add: do_runtime_def Let_def record_diff_def)
qed

subsection \<open>The running minimum\<close>

lemma min_stat_record_diff:
  "min_stat (record_diff st d) = (if min_stat st = 0 \<or> d < min_stat st then d else min_stat st)"
  by (simp add: record_diff_def Let_def)

lemma min_stat_foldl:
  assumes "min_stat st = 0"
  shows "min_stat (foldl record_diff st ds) =
         (let zs = takeWhile (\<lambda>d. d \<noteq> 0) (rev ds) in if zs = [] then 0 else Min (set zs))"
proof (induction ds rule: rev_induct)
  case Nil
  show ?case using assms by simp
next
  case (snoc d ds)
  let ?zs = "takeWhile (\<lambda>d. d \<noteq> 0) (rev ds)"
  let ?m = "min_stat (foldl record_diff st ds)"
  have m: "?m = (if ?zs = [] then 0 else Min (set ?zs))"
    using snoc.IH by (simp add: Let_def)
  show ?case
  proof (cases "d = 0")
    case True
    then show ?thesis by (auto simp: min_stat_record_diff Let_def word_gt_0)
  next
    case False
    show ?thesis
    proof (cases "?zs = []")
      case True
      then show ?thesis using False m by (simp add: min_stat_record_diff Let_def)
    next
      case nonempty: False
      let ?M = "Min (set ?zs)"
      have "?M \<in> set ?zs" using nonempty by (intro Min_in) auto
      then have M0: "?M \<noteq> 0" by (metis (mono_tags, lifting) set_takeWhileD)
      have mM: "?m = ?M" using m nonempty by simp
      have "min_stat (foldl record_diff st (ds @ [d])) = (if d < ?M then d else ?M)"
        using M0 by (simp add: min_stat_record_diff mM)
      also have "\<dots> = min d ?M" by (auto simp: min_def)
      also have "\<dots> = Min (insert d (set ?zs))"
        using nonempty by (subst Min_insert) auto
      also have "insert d (set ?zs) = set (takeWhile (\<lambda>d. d \<noteq> 0) (rev (ds @ [d])))"
        using False by simp
      finally show ?thesis using False by (simp add: Let_def)
    qed
  qed
qed

lemma min_stat_true_min:
  assumes "min_stat st = 0" and "ds \<noteq> []"
  shows "min_stat (foldl record_diff st ds) = Min (set ds) \<longleftrightarrow> 0 \<notin> set ds \<or> last ds = 0"
proof -
  let ?zs = "takeWhile (\<lambda>d. d \<noteq> 0) (rev ds)"
  let ?m = "min_stat (foldl record_diff st ds)"
  have m: "?m = (if ?zs = [] then 0 else Min (set ?zs))"
    using min_stat_foldl [OF assms(1), of ds] by (simp add: Let_def)
  have hd: "hd (rev ds) = last ds" using assms(2) by (simp add: hd_rev)
  have rne: "rev ds \<noteq> []" using assms(2) by simp
  consider (nozero) "0 \<notin> set ds" | (lastzero) "last ds = 0" | (mixed) "0 \<in> set ds" "last ds \<noteq> 0"
    by blast
  then show ?thesis
  proof cases
    case nozero
    then have "?zs = rev ds" by (intro takeWhile_eq_all_conv [THEN iffD2]) auto
    then have "set ?zs = set ds" and "?zs \<noteq> []" using rne by (metis set_rev, metis)
    then show ?thesis using m nozero by simp
  next
    case lastzero
    then have "?zs = []" using hd rne by (cases "rev ds") auto
    moreover have "0 \<in> set ds" using lastzero assms(2) by (metis last_in_set)
    then have "Min (set ds) = 0"
      by (intro Min_eqI) auto
    ultimately show ?thesis using m lastzero by simp
  next
    case mixed
    have ne: "?zs \<noteq> []" using hd rne mixed(2) by (simp add: takeWhile_eq_Nil_iff)
    then have "Min (set ?zs) \<in> set ?zs" by (intro Min_in) auto
    then have "Min (set ?zs) \<noteq> 0" by (metis (mono_tags, lifting) set_takeWhileD)
    moreover have "Min (set ds) = 0" using mixed(1) by (intro Min_eqI) auto
    ultimately show ?thesis using m ne mixed by simp
  qed
qed

text \<open>
  Claim C9 says that the reported minimum equals the true minimum of the recorded latencies
  only when all of them are positive or all of them are zero. That is too strong: after the
  latencies 5 and 0 the reported minimum is 0, which is the true minimum, although the
  latencies are neither all positive nor all zero.
\<close>

theorem min_stat_mixed_counterexample:
  "min_stat (foldl record_diff zero_stat [5, 0]) = Min (set [5, 0]) \<and>
   (0::u64) \<in> set [5, 0] \<and> (5::u64) \<in> set [5, 0] \<and> (0::u64) < 5"
  by (simp add: min_stat_record_diff zero_stat_def)

text \<open>
  Claim C9 as amended: the update treats a stored minimum of 0 as unset, so a positive
  latency recorded while the minimum is 0 becomes the minimum. Starting from a minimum of 0,
  the reported minimum after a sequence of latencies is the smallest latency recorded after
  the most recent zero latency, and 0 when the last latency is zero or none was recorded. It
  equals the true minimum of the recorded latencies exactly when none of them is zero or the
  last one is zero.
\<close>

theorem record_diff_min_sentinel:
  assumes "min_stat st = 0"
  shows "(d \<noteq> 0 \<longrightarrow> min_stat (record_diff st d) = d) \<and>
         min_stat (foldl record_diff st ds) =
           (let zs = takeWhile (\<lambda>d. d \<noteq> 0) (rev ds) in if zs = [] then 0 else Min (set zs)) \<and>
         (ds \<noteq> [] \<longrightarrow>
            (min_stat (foldl record_diff st ds) = Min (set ds) \<longleftrightarrow> 0 \<notin> set ds \<or> last ds = 0))"
  using assms min_stat_foldl [OF assms, of ds] min_stat_true_min [OF assms, of ds]
  by (simp add: min_stat_record_diff)

theorem record_diff_min_sentinel_witness:
  "min_stat zero_stat = 0 \<and> (7::u64) \<noteq> 0 \<and> [3, 0, 5 :: u64] \<noteq> [] \<and>
   min_stat (record_diff zero_stat 7) = 7 \<and>
   min_stat (foldl record_diff zero_stat [3, 0, 5]) = 5 \<and>
   min_stat (foldl record_diff zero_stat [3, 0, 5]) \<noteq> Min (set [3, 0, 5])"
  using record_diff_min_sentinel [of zero_stat 7 "[3, 0, 5]"]
  by (simp add: zero_stat_def)


section \<open>Properties of the schedule\<close>

subsection \<open>What one pass of the setup loop stores\<close>

lemma setup_loop_length: "setup_loop hr interval step percent clk = Inr sds \<Longrightarrow> length sds = length clk"
proof (induction clk arbitrary: interval sds)
  case Nil
  then show ?case by simp
next
  case (Cons t clk)
  then show ?case
    by (cases t) (auto simp: Let_def split: if_splits sum.splits)
qed

lemma setup_loop_nth:
  "setup_loop hr interval step percent clk = Inr sds \<Longrightarrow> i < length clk \<Longrightarrow>
   sds ! i =
     snd (do_runtime (fst (snd (clk ! i)))
       (zero_sched_data\<lparr>runtime_us := ucast ((interval + of_nat i * step) * percent div 100),
                         deadline_us := ucast (interval + of_nat i * step)\<rparr>)
       (fst (clk ! i)))"
proof (induction clk arbitrary: interval sds i)
  case Nil
  then show ?case by simp
next
  case (Cons t clk)
  obtain t0 t1 t2 where t: "t = (t0, t1, t2)" by (cases t)
  from Cons.prems(1) obtain sds' where
    rest: "setup_loop hr (interval + step) step percent clk = Inr sds'"
    and sds: "sds = snd (do_runtime t1
       (zero_sched_data\<lparr>runtime_us := ucast (interval * percent div 100),
                         deadline_us := ucast interval\<rparr>) t0) # sds'"
    by (auto simp: t Let_def split: if_splits sum.splits)
  show ?case
  proof (cases i)
    case 0
    then show ?thesis using sds t by simp
  next
    case (Suc j)
    then have "j < length clk" using Cons.prems(2) by simp
    from Cons.IH [OF rest this] show ?thesis
      using Suc sds by (simp add: algebra_simps)
  qed
qed

lemma do_runtime_fields:
  "runtime_us (snd (do_runtime now sd period)) = runtime_us sd"
  "deadline_us (snd (do_runtime now sd period)) = deadline_us sd"
  "stat (snd (do_runtime now sd period)) = record_diff (stat sd) (now - adjust_period now period)"
  by (simp_all add: do_runtime_def Let_def)

lemma unat_ucast_u32_u64: "unat (ucast (w :: u32) :: u64) = unat w"
proof -
  have "unat w < 2 ^ 32" using unsigned_less [of w, where 'a = nat] by simp
  then have "unat w < 2 ^ 64" by simp
  then show ?thesis by (simp add: unsigned_ucast_eq take_bit_nat_eq_self)
qed

lemma nth_interval:
  "unat (interval + of_nat i * step :: u32) = (unat interval + i * unat step) mod 2 ^ 32"
  by (simp add: unat_word_ariths unat_of_nat mod_simps)

subsection \<open>Deadlines and runtimes\<close>

text \<open>
  Claim C7 gives the schedule as \<open>deadline_us(i) = base_interval + i * step\<close> and
  \<open>runtime_us(i) = deadline_us(i) * duty_percent / 100\<close>. The program computes both in
  \<^verbatim>\<open>unsigned int\<close>, so the formulas hold on the integers only as long as nothing exceeds 32
  bits: for an interval of 100 seconds at 60 percent the product is 6000000000, which wraps,
  and the runtime stored is 17050327 instead of 60000000 microseconds.
\<close>

theorem runtime_wraps_counterexample:
  "setup_loop True 100000000 500 60 [(0, 0, 0)] =
     Inr [\<lparr>runtime_us = 17050327, deadline_us = 100000000, stat = zero_stat\<lparr>cycles := 1\<rparr>\<rparr>] \<and>
   (17050327::nat) \<noteq> 100000000 * 60 div 100"
  by (simp add: zero_sched_data_def zero_stat_def do_runtime_def adjust_period_def
      record_diff_def Let_def)

text \<open>
  Claim C7 as amended: when the setup loop completes, and neither \<open>base_interval + i * step\<close>
  nor its product with the duty percentage reaches \<open>2 ^ 32\<close>, worker \<open>i\<close> has
  \<open>deadline_us = base_interval + i * step\<close> and
  \<open>runtime_us = deadline_us * duty_percent div 100\<close>. For base interval 1000, step 500, three
  workers and 60 percent the deadlines are 1000, 1500, 2000 and the runtimes 600, 900, 1200
  (the witness below).
\<close>

theorem schedule_formula:
  assumes "setup_loop hr interval step percent clk = Inr sds" and "i < length clk"
    and "unat interval + i * unat step < 2 ^ 32"
    and "(unat interval + i * unat step) * unat percent < 2 ^ 32"
  shows "unat (deadline_us (sds ! i)) = unat interval + i * unat step \<and>
         unat (runtime_us (sds ! i)) = (unat interval + i * unat step) * unat percent div 100"
proof -
  let ?iv = "interval + of_nat i * step"
  have iv: "unat ?iv = unat interval + i * unat step"
    using assms(3) by (simp add: nth_interval)
  have "unat (?iv * percent) = (unat ?iv * unat percent) mod 2 ^ 32"
    by (simp add: unat_word_ariths)
  then have prod: "unat (?iv * percent) = (unat interval + i * unat step) * unat percent"
    using assms(4) iv by simp
  have "unat (?iv * percent div 100) = unat (?iv * percent) div 100"
    by (simp add: unat_div)
  then show ?thesis
    using setup_loop_nth [OF assms(1,2)] iv prod
    by (simp add: do_runtime_fields unat_ucast_u32_u64)
qed


theorem schedule_formula_witness:
  "setup_loop True 1000 500 60 [(0, 0, 0), (5, 5, 6), (9, 9, 9)] =
     Inr [\<lparr>runtime_us = 600, deadline_us = 1000, stat = zero_stat\<lparr>cycles := 1\<rparr>\<rparr>,
          \<lparr>runtime_us = 900, deadline_us = 1500, stat = zero_stat\<lparr>cycles := 1\<rparr>\<rparr>,
          \<lparr>runtime_us = 1200, deadline_us = 2000, stat = zero_stat\<lparr>cycles := 1\<rparr>\<rparr>] \<and>
   (2::nat) < length [(0, 0, 0), (5, 5, 6), (9, 9, 9 :: u64) :: u64 \<times> u64 \<times> u64] \<and>
   unat (1000 :: u32) + 2 * unat (500 :: u32) < 2 ^ 32 \<and>
   (unat (1000 :: u32) + 2 * unat (500 :: u32)) * unat (60 :: u32) < 2 ^ 32 \<and>
   unat (2000 :: u64) = unat (1000 :: u32) + 2 * unat (500 :: u32) \<and>
   unat (1200 :: u64) = (unat (1000 :: u32) + 2 * unat (500 :: u32)) * unat (60 :: u32) div 100"
proof -
  have run: "setup_loop True 1000 500 60 [(0, 0, 0), (5, 5, 6), (9, 9, 9)] =
     Inr [\<lparr>runtime_us = 600, deadline_us = 1000, stat = zero_stat\<lparr>cycles := 1\<rparr>\<rparr>,
          \<lparr>runtime_us = 900, deadline_us = 1500, stat = zero_stat\<lparr>cycles := 1\<rparr>\<rparr>,
          \<lparr>runtime_us = 1200, deadline_us = 2000, stat = zero_stat\<lparr>cycles := 1\<rparr>\<rparr>]"
    by (simp add: zero_sched_data_def zero_stat_def do_runtime_def adjust_period_def
        record_diff_def Let_def)
  show ?thesis
    using schedule_formula [OF run, of 2] run by simp
qed

subsection \<open>More threads than CPUs\<close>

lemma duty_percent_reduced:
  assumes "nr_cpus < nr_threads" and "0 \<le> nr_cpus"
  shows "duty_percent nr_cpus nr_threads = nr_cpus * 80 div nr_threads"
    and "0 \<le> duty_percent nr_cpus nr_threads"
    and "duty_percent nr_cpus nr_threads < 80"
    and "duty_percent nr_cpus nr_threads * nr_threads \<le> nr_cpus * 80"
proof -
  have pos: "0 < nr_threads" using assms by simp
  show eq: "duty_percent nr_cpus nr_threads = nr_cpus * 80 div nr_threads"
    using assms pos by (cases "nr_cpus = 0") (auto simp: duty_percent_def c_div_def sgn_if)
  show "0 \<le> duty_percent nr_cpus nr_threads"
    unfolding eq using assms pos by (simp add: pos_imp_zdiv_nonneg_iff)
  have "nr_threads * (nr_cpus * 80 div nr_threads) + nr_cpus * 80 mod nr_threads = nr_cpus * 80"
    by simp
  moreover have "0 \<le> nr_cpus * 80 mod nr_threads" using pos by simp
  ultimately have le: "nr_threads * (nr_cpus * 80 div nr_threads) \<le> nr_cpus * 80" by linarith
  show "duty_percent nr_cpus nr_threads < 80"
  proof (rule ccontr)
    assume "\<not> duty_percent nr_cpus nr_threads < 80"
    then have "80 \<le> nr_cpus * 80 div nr_threads" by (simp add: eq)
    then have "nr_threads * 80 \<le> nr_threads * (nr_cpus * 80 div nr_threads)"
      using pos by (intro mult_left_mono) simp_all
    with le assms(1) show False by linarith
  qed
  show "duty_percent nr_cpus nr_threads * nr_threads \<le> nr_cpus * 80"
    using le by (simp add: eq mult.commute)
qed


lemma sum_list_bounded:
  "(\<And>x. x \<in> set xs \<Longrightarrow> f x \<le> c) \<Longrightarrow> (\<Sum>x\<leftarrow>xs. f x) \<le> real (length xs) * c"
  by (induction xs) (auto simp: algebra_simps add_mono)

lemma slot_budget:
  assumes "setup_loop hr interval step percent clk = Inr sds" and "sd \<in> set sds"
  shows "unat (runtime_us sd) * 100 \<le> unat (deadline_us sd) * unat percent"
proof -
  from assms(2) obtain i where i: "i < length sds" and sd: "sd = sds ! i"
    by (auto simp: in_set_conv_nth)
  then have i': "i < length clk" using setup_loop_length [OF assms(1)] by simp
  let ?iv = "interval + of_nat i * step"
  have r: "unat (runtime_us sd) = unat (?iv * percent) div 100"
    and d: "unat (deadline_us sd) = unat ?iv"
    using setup_loop_nth [OF assms(1) i'] sd
    by (simp_all add: do_runtime_fields unat_ucast_u32_u64 unat_div)
  have "unat (?iv * percent) = (unat ?iv * unat percent) mod 2 ^ 32"
    by (simp add: unat_word_ariths)
  then have "unat (?iv * percent) \<le> unat ?iv * unat percent" by simp
  moreover have "unat (?iv * percent) div 100 * 100 \<le> unat (?iv * percent)" by simp
  ultimately show ?thesis unfolding r d by linarith
qed

text \<open>
  Claim C8 says that with more threads than CPUs the duty-cycle percentage is reduced. The
  value that the program assigns, \<open>nr_cpus * 80 / nr_threads\<close>, is not always below the
  default of 60: with 5 threads on 4 CPUs it is 64.
\<close>

theorem duty_percent_raised_counterexample:
  "(4::int) < 5 \<and> duty_percent 4 5 = 64 \<and> (60::int) < 64"
  by (simp add: duty_percent_def c_div_def)

text \<open>
  Claim C8 as amended: when there are more threads than CPUs (and the CPU count is not
  negative, which \<^verbatim>\<open>main\<close> has checked), the percentage is set to
  \<open>nr_cpus * 80 div nr_threads\<close>, which is below 80; every worker's runtime is at most that
  percentage of its deadline; and the sum over the workers of \<open>runtime_us / deadline_us\<close> is
  at most \<open>0.8 * nr_cpus\<close>. (A worker whose deadline has wrapped to 0 has runtime 0 and adds
  nothing to the sum.)
\<close>

theorem duty_cycle_bound:
  assumes "nr_cpus < nr_threads" and "0 \<le> nr_cpus"
    and "setup_loop hr interval step (word_of_int (duty_percent nr_cpus nr_threads)) clk = Inr sds"
    and "int (length clk) = nr_threads"
  shows "duty_percent nr_cpus nr_threads = nr_cpus * 80 div nr_threads \<and>
         duty_percent nr_cpus nr_threads < 80 \<and>
         (\<forall>sd\<in>set sds. int (unat (runtime_us sd)) * 100 \<le>
             int (unat (deadline_us sd)) * duty_percent nr_cpus nr_threads) \<and>
         (\<Sum>sd\<leftarrow>sds. real (unat (runtime_us sd)) / real (unat (deadline_us sd)))
           \<le> 0.8 * real_of_int nr_cpus"
proof -
  let ?p = "duty_percent nr_cpus nr_threads"
  note dp = duty_percent_reduced [OF assms(1,2)]
  have up: "unat (word_of_int ?p :: u32) = nat ?p"
    using dp(2,3) by (simp add: unsigned_of_int take_bit_int_eq_self nat_take_bit_eq take_bit_nat_eq_self)
  have slot: "int (unat (runtime_us sd)) * 100 \<le> int (unat (deadline_us sd)) * ?p"
    if "sd \<in> set sds" for sd
  proof -
    have "unat (runtime_us sd) * 100 \<le> unat (deadline_us sd) * nat ?p"
      using slot_budget [OF assms(3) that] up by simp
    then have "int (unat (runtime_us sd) * 100) \<le> int (unat (deadline_us sd) * nat ?p)"
      by (rule iffD2 [OF of_nat_le_iff])
    then show ?thesis using dp(2) by simp
  qed
  have ratio: "real (unat (runtime_us sd)) / real (unat (deadline_us sd)) \<le> real_of_int ?p / 100"
    if "sd \<in> set sds" for sd
  proof (cases "unat (deadline_us sd) = 0")
    case True
    then show ?thesis using dp(2) by simp
  next
    case False
    have "real_of_int (int (unat (runtime_us sd)) * 100) \<le>
          real_of_int (int (unat (deadline_us sd)) * ?p)"
      using slot [OF that] by (rule iffD2 [OF of_int_le_iff])
    then have "real (unat (runtime_us sd)) * 100 \<le> real (unat (deadline_us sd)) * real_of_int ?p"
      by simp
    moreover have "0 < real (unat (deadline_us sd))"
      using False by (simp only: of_nat_0_less_iff)
    ultimately show ?thesis by (simp add: field_simps)
  qed
  have "(\<Sum>sd\<leftarrow>sds. real (unat (runtime_us sd)) / real (unat (deadline_us sd)))
          \<le> real (length sds) * (real_of_int ?p / 100)"
    by (rule sum_list_bounded) (rule ratio)
  also have "real (length sds) = real_of_int nr_threads"
    using setup_loop_length [OF assms(3)] assms(4) by (metis of_int_of_nat_eq)
  also have "real_of_int nr_threads * (real_of_int ?p / 100) = real_of_int (?p * nr_threads) / 100"
    by simp
  also have "\<dots> \<le> real_of_int (nr_cpus * 80) / 100"
    using dp(4) by (intro divide_right_mono iffD2 [OF of_int_le_iff]) simp_all
  also have "\<dots> = 0.8 * real_of_int nr_cpus" by simp
  finally show ?thesis using dp(1,3) slot by blast
qed


theorem duty_cycle_bound_witness:
  "(2::int) < 3 \<and> (0::int) \<le> 2 \<and>
   setup_loop True 1000 500 (word_of_int (duty_percent 2 3)) [(0, 0, 0), (0, 0, 0), (0, 0, 0)] =
     Inr [\<lparr>runtime_us = 530, deadline_us = 1000, stat = zero_stat\<lparr>cycles := 1\<rparr>\<rparr>,
          \<lparr>runtime_us = 795, deadline_us = 1500, stat = zero_stat\<lparr>cycles := 1\<rparr>\<rparr>,
          \<lparr>runtime_us = 1060, deadline_us = 2000, stat = zero_stat\<lparr>cycles := 1\<rparr>\<rparr>] \<and>
   int (length [(0, 0, 0), (0, 0, 0), (0, 0, 0 :: u64) :: u64 \<times> u64 \<times> u64]) = 3 \<and>
   duty_percent 2 3 = 53 \<and>
   (\<Sum>sd\<leftarrow>[\<lparr>runtime_us = 530, deadline_us = 1000, stat = zero_stat\<lparr>cycles := 1\<rparr>\<rparr>,
          \<lparr>runtime_us = 795, deadline_us = 1500, stat = zero_stat\<lparr>cycles := 1\<rparr>\<rparr>,
          \<lparr>runtime_us = 1060, deadline_us = 2000, stat = zero_stat\<lparr>cycles := 1\<rparr>\<rparr>].
      real (unat (runtime_us sd)) / real (unat (deadline_us sd))) \<le> 0.8 * real_of_int 2"
proof -
  have h1: "(2::int) < 3" and h2: "(0::int) \<le> 2" by simp_all
  have p: "duty_percent 2 3 = 53" by (simp add: duty_percent_def c_div_def)
  have run: "setup_loop True 1000 500 (word_of_int (duty_percent 2 3))
      [(0, 0, 0), (0, 0, 0), (0, 0, 0)] =
     Inr [\<lparr>runtime_us = 530, deadline_us = 1000, stat = zero_stat\<lparr>cycles := 1\<rparr>\<rparr>,
          \<lparr>runtime_us = 795, deadline_us = 1500, stat = zero_stat\<lparr>cycles := 1\<rparr>\<rparr>,
          \<lparr>runtime_us = 1060, deadline_us = 2000, stat = zero_stat\<lparr>cycles := 1\<rparr>\<rparr>]"
    by (simp add: p zero_sched_data_def zero_stat_def do_runtime_def adjust_period_def
        record_diff_def Let_def)
  have h4: "int (length [(0, 0, 0), (0, 0, 0), (0, 0, 0 :: u64) :: u64 \<times> u64 \<times> u64]) = 3"
    by simp
  from duty_cycle_bound [OF h1 h2 run h4]
  have "(\<Sum>sd\<leftarrow>[\<lparr>runtime_us = 530, deadline_us = 1000, stat = zero_stat\<lparr>cycles := 1\<rparr>\<rparr>,
          \<lparr>runtime_us = 795, deadline_us = 1500, stat = zero_stat\<lparr>cycles := 1\<rparr>\<rparr>,
          \<lparr>runtime_us = 1060, deadline_us = 2000, stat = zero_stat\<lparr>cycles := 1\<rparr>\<rparr>].
      real (unat (runtime_us sd)) / real (unat (deadline_us sd))) \<le> 0.8 * real_of_int 2"
    by (rule conjunct2 [OF conjunct2 [OF conjunct2]])
  with h1 h2 run h4 p show ?thesis by blast
qed

section \<open>Properties of the statistics\<close>

subsection \<open>The calibration sample\<close>

lemma cycles_record_diff: "cycles (record_diff st d) = cycles st + 1"
  by (simp add: record_diff_def Let_def)

lemma avg_record_diff: "avg (record_diff st d) = avg st + real (unat d)"
  by (simp add: record_diff_def Let_def)

lemma act_record_diff: "act (record_diff st d) = d"
  by (simp add: record_diff_def Let_def)

lemma max_stat_record_diff: "max_stat (record_diff st d) = max (max_stat st) d"
  by (auto simp: record_diff_def Let_def max_def)

lemma cycles_foldl: "cycles (foldl record_diff st ds) = cycles st + of_nat (length ds)"
  by (induction ds arbitrary: st) (simp_all add: cycles_record_diff)

lemma avg_foldl: "avg (foldl record_diff st ds) = avg st + (\<Sum>d\<leftarrow>ds. real (unat d))"
  by (induction ds arbitrary: st) (simp_all add: avg_record_diff)

lemma max_stat_foldl: "max_stat (foldl record_diff st ds) = foldl max (max_stat st) ds"
  by (induction ds arbitrary: st) (simp_all add: max_stat_record_diff)

lemma foldl_max_start: "foldl max (max a b) ds = max a (foldl max b ds)" for a b :: u64
  by (induction ds arbitrary: b) (simp_all add: max.assoc)

lemma run_cycles_stat:
  "stat (snd (run_cycles nows sd period)) =
     foldl record_diff (stat sd) (cycle_diffs nows (deadline_us sd) period)"
proof (induction nows arbitrary: sd period)
  case Nil
  show ?case by simp
next
  case (Cons now nows)
  show ?case
    using Cons.IH [of "snd (do_runtime now sd period)" "fst (do_runtime now sd period)"]
    by (simp add: split_beta do_runtime_fields) (simp add: do_runtime_def Let_def)
qed

lemma length_cycle_diffs: "length (cycle_diffs nows dl period) = length nows"
  by (induction nows arbitrary: period) simp_all

lemma final_stat_fold:
  assumes "setup_loop hr interval step percent clk = Inr sds" and "i < length clk"
  shows "act (stat (sds ! i)) =
           fst (snd (clk ! i)) - adjust_period (fst (snd (clk ! i))) (fst (clk ! i))"
    and "stat (snd (run_cycles nows (sds ! i) period)) =
           foldl record_diff zero_stat
             (act (stat (sds ! i)) # cycle_diffs nows (deadline_us (sds ! i)) period)"
proof -
  let ?c = "fst (snd (clk ! i)) - adjust_period (fst (snd (clk ! i))) (fst (clk ! i))"
  have slot: "stat (sds ! i) = record_diff zero_stat ?c"
    using setup_loop_nth [OF assms(1,2)] by (simp add: do_runtime_fields zero_sched_data_def)
  show a: "act (stat (sds ! i)) = ?c" by (simp add: slot act_record_diff)
  show "stat (snd (run_cycles nows (sds ! i) period)) =
           foldl record_diff zero_stat
             (act (stat (sds ! i)) # cycle_diffs nows (deadline_us (sds ! i)) period)"
    unfolding a by (simp add: run_cycles_stat slot)
qed

lemma plain_stat_fold:
  "stat (snd (run_cycles nows (sd\<lparr>stat := zero_stat\<rparr>) period)) =
     foldl record_diff zero_stat (cycle_diffs nows (deadline_us sd) period)"
  using run_cycles_stat [of nows "sd\<lparr>stat := zero_stat\<rparr>" period] by simp

lemma min_stat_leading_zero:
  "min_stat (foldl record_diff zero_stat (0 # ds)) = min_stat (foldl record_diff zero_stat ds)"
proof -
  have "min_stat (record_diff zero_stat 0) = 0" by (simp add: min_stat_record_diff zero_stat_def)
  then have "min_stat (foldl record_diff (record_diff zero_stat 0) ds) =
      (let zs = takeWhile (\<lambda>d. d \<noteq> 0) (rev ds) in if zs = [] then 0 else Min (set zs))"
    by (rule min_stat_foldl)
  moreover have "min_stat (foldl record_diff zero_stat ds) =
      (let zs = takeWhile (\<lambda>d. d \<noteq> 0) (rev ds) in if zs = [] then 0 else Min (set zs))"
    by (rule min_stat_foldl) (simp add: zero_stat_def)
  ultimately show ?thesis by simp
qed

lemma calibration_min:
  assumes "setup_loop hr interval step percent clk = Inr sds" and "i < length clk"
  shows "(act (stat (sds ! i)) = 0 \<longrightarrow>
            min_stat (stat (snd (run_cycles nows (sds ! i) period))) =
            min_stat (stat (snd (run_cycles nows ((sds ! i)\<lparr>stat := zero_stat\<rparr>) period)))) \<and>
         (min_stat (stat (snd (run_cycles nows (sds ! i) period))) =
            Min (set (act (stat (sds ! i)) # cycle_diffs nows (deadline_us (sds ! i)) period)) \<longleftrightarrow>
          0 \<notin> set (act (stat (sds ! i)) # cycle_diffs nows (deadline_us (sds ! i)) period) \<or>
          last (act (stat (sds ! i)) # cycle_diffs nows (deadline_us (sds ! i)) period) = 0)"
proof -
  let ?L = "act (stat (sds ! i)) # cycle_diffs nows (deadline_us (sds ! i)) period"
  have fin: "stat (snd (run_cycles nows (sds ! i) period)) = foldl record_diff zero_stat ?L"
    by (rule final_stat_fold(2) [OF assms])
  have z: "min_stat zero_stat = 0" by (simp add: zero_stat_def)
  have ne: "?L \<noteq> []" by simp
  have "act (stat (sds ! i)) = 0 \<Longrightarrow>
      min_stat (foldl record_diff zero_stat ?L) =
      min_stat (foldl record_diff zero_stat (cycle_diffs nows (deadline_us (sds ! i)) period))"
    using min_stat_leading_zero by simp
  moreover note min_stat_true_min [OF z ne]
  ultimately show ?thesis unfolding fin plain_stat_fold by blast
qed

text \<open>
  Claim C10 says that the final min, max and average all include the calibration sample.
  The minimum need not. \<^verbatim>\<open>do_runtime\<close> reads a stored minimum of 0 as "not yet set"
  (\<^verbatim>\<open>if (!stat->min || diff < stat->min)\<close>), so a calibration latency of 0, which is what
  the calibration records whenever the clock reading inside \<^verbatim>\<open>do_runtime\<close> is not later than
  \<^verbatim>\<open>start_period\<close>, leaves no trace in \<^verbatim>\<open>min\<close>. Below, the setup loop calibrates one slot
  with the readings 20, 20, 21, so with latency 0; the slot's thread then records the
  latencies 1000 and 1100 (clock 3000 against period 2000, clock 4100 against period 3000).
  The final minimum is 1000, the very value a run of the thread on a zeroed slot gives,
  while the smallest of the three samples 0, 1000, 1100 is 0.
\<close>

theorem calibration_min_counterexample:
  "setup_loop True 1000 500 60 [(20, 20, 21)] =
     Inr [\<lparr>runtime_us = 600, deadline_us = 1000,
            stat = \<lparr>cycles = 1, min_stat = 0, max_stat = 0, act = 0, avg = 0, tid = 0\<rparr>\<rparr>] \<and>
   cycle_diffs [3000, 4100] 1000 2000 = [1000, 1100] \<and>
   stat (snd (run_cycles [3000, 4100]
     \<lparr>runtime_us = 600, deadline_us = 1000,
       stat = \<lparr>cycles = 1, min_stat = 0, max_stat = 0, act = 0, avg = 0, tid = 0\<rparr>\<rparr> 2000)) =
     \<lparr>cycles = 3, min_stat = 1000, max_stat = 1100, act = 1100, avg = 2100, tid = 0\<rparr> \<and>
   stat (snd (run_cycles [3000, 4100]
     \<lparr>runtime_us = 600, deadline_us = 1000, stat = zero_stat\<rparr> 2000)) =
     \<lparr>cycles = 2, min_stat = 1000, max_stat = 1100, act = 1100, avg = 2100, tid = 0\<rparr> \<and>
   Min (set [0, 1000, 1100 :: u64]) = 0"
  by (simp add: zero_sched_data_def zero_stat_def do_runtime_def adjust_period_def
      record_diff_def Let_def)

text \<open>
  Claim C10, as amended: each pass of the setup loop, which runs before any thread is
  created, calls \<^verbatim>\<open>do_runtime\<close> once on the worker's slot. So when the loop has completed,
  the slot holds exactly one recorded latency (the distance of the clock reading inside
  \<^verbatim>\<open>do_runtime\<close> from \<^verbatim>\<open>start_period\<close>) and its cycle count is 1. Whatever number of cycles
  (fewer than \<open>2 ^ 64 - 1\<close>, where the counter would wrap) the worker's thread then runs on the
  slot, none included: the final statistics are those of the latency sequence that starts
  with the calibration latency, the count is at least 1 and one more than the thread alone
  would have counted, the latency sum contains the calibration latency, and the maximum is
  the larger of the calibration latency and the thread's own maximum. The minimum includes
  the calibration latency only as far as the 0-means-unset rule lets it: when the
  calibration latency is 0 the final minimum is the one the thread alone would have
  reported, and the final minimum is the smallest of all latencies, the calibration latency
  among them, exactly when none of them is 0 or the last of them is 0.
\<close>

theorem calibration_sample_counted:
  assumes "setup_loop hr interval step percent clk = Inr sds" and "i < length clk"
    and "length nows < 2 ^ 64 - 1"
  shows "cycles (stat (sds ! i)) = 1 \<and>
         stat (sds ! i) =
           record_diff zero_stat (fst (snd (clk ! i)) - adjust_period (fst (snd (clk ! i))) (fst (clk ! i))) \<and>
         stat (snd (run_cycles nows (sds ! i) period)) =
           foldl record_diff zero_stat
             ((fst (snd (clk ! i)) - adjust_period (fst (snd (clk ! i))) (fst (clk ! i))) #
              cycle_diffs nows (deadline_us (sds ! i)) period) \<and>
         1 \<le> cycles (stat (snd (run_cycles nows (sds ! i) period))) \<and>
         cycles (stat (snd (run_cycles nows (sds ! i) period))) =
           cycles (stat (snd (run_cycles nows ((sds ! i)\<lparr>stat := zero_stat\<rparr>) period))) + 1 \<and>
         avg (stat (snd (run_cycles nows (sds ! i) period))) =
           real (unat (act (stat (sds ! i)))) +
           avg (stat (snd (run_cycles nows ((sds ! i)\<lparr>stat := zero_stat\<rparr>) period))) \<and>
         max_stat (stat (snd (run_cycles nows (sds ! i) period))) =
           max (act (stat (sds ! i)))
             (max_stat (stat (snd (run_cycles nows ((sds ! i)\<lparr>stat := zero_stat\<rparr>) period)))) \<and>
         (act (stat (sds ! i)) = 0 \<longrightarrow>
            min_stat (stat (snd (run_cycles nows (sds ! i) period))) =
            min_stat (stat (snd (run_cycles nows ((sds ! i)\<lparr>stat := zero_stat\<rparr>) period)))) \<and>
         (min_stat (stat (snd (run_cycles nows (sds ! i) period))) =
            Min (set (act (stat (sds ! i)) # cycle_diffs nows (deadline_us (sds ! i)) period)) \<longleftrightarrow>
          0 \<notin> set (act (stat (sds ! i)) # cycle_diffs nows (deadline_us (sds ! i)) period) \<or>
          last (act (stat (sds ! i)) # cycle_diffs nows (deadline_us (sds ! i)) period) = 0)"
proof -
  let ?c = "fst (snd (clk ! i)) - adjust_period (fst (snd (clk ! i))) (fst (clk ! i))"
  let ?ds = "cycle_diffs nows (deadline_us (sds ! i)) period"
  have slot: "stat (sds ! i) = record_diff zero_stat ?c"
    using setup_loop_nth [OF assms(1,2)] by (simp add: do_runtime_fields zero_sched_data_def)
  have one: "cycles (stat (sds ! i)) = 1"
    by (simp add: slot cycles_record_diff zero_stat_def)
  have fin: "stat (snd (run_cycles nows (sds ! i) period)) = foldl record_diff (stat (sds ! i)) ?ds"
    by (rule run_cycles_stat)
  have plain: "stat (snd (run_cycles nows ((sds ! i)\<lparr>stat := zero_stat\<rparr>) period)) =
      foldl record_diff zero_stat ?ds"
    using run_cycles_stat [of nows "(sds ! i)\<lparr>stat := zero_stat\<rparr>" period] by simp
  have len: "length ?ds = length nows" by (rule length_cycle_diffs)
  have "unat (1 + of_nat (length nows) :: u64) = 1 + length nows"
    using assms(3) by (simp add: unat_word_ariths unat_of_nat)
  then have "1 \<le> unat (cycles (foldl record_diff (stat (sds ! i)) ?ds))"
    by (simp add: cycles_foldl one len)
  then have ge: "1 \<le> cycles (foldl record_diff (stat (sds ! i)) ?ds)"
    by (simp add: word_le_nat_alt)
  have c0: "max 0 ?c = max ?c 0" by (rule max.commute)
  have "max_stat (foldl record_diff (stat (sds ! i)) ?ds) = foldl max (max ?c 0) ?ds"
    by (simp only: slot max_stat_foldl max_stat_record_diff c0) (simp add: zero_stat_def)
  also have "\<dots> = max ?c (foldl max 0 ?ds)" by (rule foldl_max_start)
  also have "foldl max 0 ?ds = max_stat (foldl record_diff zero_stat ?ds)"
    by (simp add: max_stat_foldl zero_stat_def)
  finally have mx: "max_stat (foldl record_diff (stat (sds ! i)) ?ds) =
      max ?c (max_stat (foldl record_diff zero_stat ?ds))" .
  have whole: "foldl record_diff (stat (sds ! i)) ?ds = foldl record_diff zero_stat (?c # ?ds)"
    by (simp add: slot)
  have counted: "cycles (stat (sds ! i)) = 1 \<and>
         stat (sds ! i) = record_diff zero_stat ?c \<and>
         stat (snd (run_cycles nows (sds ! i) period)) =
           foldl record_diff zero_stat (?c # ?ds) \<and>
         1 \<le> cycles (stat (snd (run_cycles nows (sds ! i) period))) \<and>
         cycles (stat (snd (run_cycles nows (sds ! i) period))) =
           cycles (stat (snd (run_cycles nows ((sds ! i)\<lparr>stat := zero_stat\<rparr>) period))) + 1 \<and>
         avg (stat (snd (run_cycles nows (sds ! i) period))) =
           real (unat (act (stat (sds ! i)))) +
           avg (stat (snd (run_cycles nows ((sds ! i)\<lparr>stat := zero_stat\<rparr>) period))) \<and>
         max_stat (stat (snd (run_cycles nows (sds ! i) period))) =
           max (act (stat (sds ! i)))
             (max_stat (stat (snd (run_cycles nows ((sds ! i)\<lparr>stat := zero_stat\<rparr>) period))))"
    unfolding fin plain using slot one ge mx whole
    by (simp add: cycles_foldl avg_foldl act_record_diff avg_record_diff zero_stat_def)
  from counted calibration_min [OF assms(1,2), of nows period] show ?thesis by blast
qed

theorem calibration_sample_counted_witness:
  "setup_loop True 1000 500 60 [(10, 12, 13), (20, 20, 21)] =
     Inr [\<lparr>runtime_us = 600, deadline_us = 1000,
            stat = \<lparr>cycles = 1, min_stat = 2, max_stat = 2, act = 2, avg = 2, tid = 0\<rparr>\<rparr>,
          \<lparr>runtime_us = 900, deadline_us = 1500,
            stat = \<lparr>cycles = 1, min_stat = 0, max_stat = 0, act = 0, avg = 0, tid = 0\<rparr>\<rparr>] \<and>
   (0::nat) < length [(10, 12, 13), (20, 20, 21 :: u64) :: u64 \<times> u64 \<times> u64] \<and>
   length [3000, 4100 :: u64] < 2 ^ 64 - 1 \<and>
   (1::u64) \<le> cycles (stat (snd (run_cycles [3000, 4100]
     \<lparr>runtime_us = 600, deadline_us = 1000,
       stat = \<lparr>cycles = 1, min_stat = 2, max_stat = 2, act = 2, avg = 2, tid = 0\<rparr>\<rparr> 2000))) \<and>
   stat (snd (run_cycles [3000, 4100]
     \<lparr>runtime_us = 600, deadline_us = 1000,
       stat = \<lparr>cycles = 1, min_stat = 2, max_stat = 2, act = 2, avg = 2, tid = 0\<rparr>\<rparr> 2000)) =
     \<lparr>cycles = 3, min_stat = 2, max_stat = 1100, act = 1100, avg = 2102, tid = 0\<rparr> \<and>
   Suc 0 < length [(10, 12, 13), (20, 20, 21 :: u64) :: u64 \<times> u64 \<times> u64] \<and>
   act (stat \<lparr>runtime_us = 900, deadline_us = 1500,
     stat = \<lparr>cycles = 1, min_stat = 0, max_stat = 0, act = 0, avg = 0, tid = 0\<rparr>\<rparr>) = 0 \<and>
   min_stat (stat (snd (run_cycles [3000, 4100]
     \<lparr>runtime_us = 900, deadline_us = 1500,
       stat = \<lparr>cycles = 1, min_stat = 0, max_stat = 0, act = 0, avg = 0, tid = 0\<rparr>\<rparr> 2000))) =
   min_stat (stat (snd (run_cycles [3000, 4100]
     (\<lparr>runtime_us = 900, deadline_us = 1500,
       stat = \<lparr>cycles = 1, min_stat = 0, max_stat = 0, act = 0, avg = 0, tid = 0\<rparr>\<rparr>
      \<lparr>stat := zero_stat\<rparr>) 2000)))"
proof -
  have run: "setup_loop True 1000 500 60 [(10, 12, 13), (20, 20, 21)] =
     Inr [\<lparr>runtime_us = 600, deadline_us = 1000,
            stat = \<lparr>cycles = 1, min_stat = 2, max_stat = 2, act = 2, avg = 2, tid = 0\<rparr>\<rparr>,
          \<lparr>runtime_us = 900, deadline_us = 1500,
            stat = \<lparr>cycles = 1, min_stat = 0, max_stat = 0, act = 0, avg = 0, tid = 0\<rparr>\<rparr>]"
    by (simp add: zero_sched_data_def zero_stat_def do_runtime_def adjust_period_def
        record_diff_def Let_def)
  have h2: "(0::nat) < length [(10, 12, 13), (20, 20, 21 :: u64) :: u64 \<times> u64 \<times> u64]"
    by simp
  have h2': "Suc 0 < length [(10, 12, 13), (20, 20, 21 :: u64) :: u64 \<times> u64 \<times> u64]"
    by simp
  have h3: "length [3000, 4100 :: u64] < 2 ^ 64 - 1" by simp
  have c: "(1::u64) \<le> cycles (stat (snd (run_cycles [3000, 4100]
     \<lparr>runtime_us = 600, deadline_us = 1000,
       stat = \<lparr>cycles = 1, min_stat = 2, max_stat = 2, act = 2, avg = 2, tid = 0\<rparr>\<rparr> 2000)))"
    using calibration_sample_counted [OF run h2 h3, of 2000]
    by (elim conjE) (simp only: nth_Cons_0)
  have v: "stat (snd (run_cycles [3000, 4100]
     \<lparr>runtime_us = 600, deadline_us = 1000,
       stat = \<lparr>cycles = 1, min_stat = 2, max_stat = 2, act = 2, avg = 2, tid = 0\<rparr>\<rparr> 2000)) =
     \<lparr>cycles = 3, min_stat = 2, max_stat = 1100, act = 1100, avg = 2102, tid = 0\<rparr>"
    by (simp add: do_runtime_def adjust_period_def record_diff_def Let_def)
  have a0: "act (stat \<lparr>runtime_us = 900, deadline_us = 1500,
     stat = \<lparr>cycles = 1, min_stat = 0, max_stat = 0, act = 0, avg = 0, tid = 0\<rparr>\<rparr>) = 0"
    by simp
  note inst = calibration_sample_counted [OF run h2' h3, of 2000, unfolded nth_Cons_Suc nth_Cons_0]
  from inst have imp: "act (stat \<lparr>runtime_us = 900, deadline_us = 1500,
     stat = \<lparr>cycles = 1, min_stat = 0, max_stat = 0, act = 0, avg = 0, tid = 0\<rparr>\<rparr>) = 0 \<longrightarrow>
   min_stat (stat (snd (run_cycles [3000, 4100]
     \<lparr>runtime_us = 900, deadline_us = 1500,
       stat = \<lparr>cycles = 1, min_stat = 0, max_stat = 0, act = 0, avg = 0, tid = 0\<rparr>\<rparr> 2000))) =
   min_stat (stat (snd (run_cycles [3000, 4100]
     (\<lparr>runtime_us = 900, deadline_us = 1500,
       stat = \<lparr>cycles = 1, min_stat = 0, max_stat = 0, act = 0, avg = 0, tid = 0\<rparr>\<rparr>
      \<lparr>stat := zero_stat\<rparr>) 2000)))"
    by (elim conjE)
  have m: "min_stat (stat (snd (run_cycles [3000, 4100]
     \<lparr>runtime_us = 900, deadline_us = 1500,
       stat = \<lparr>cycles = 1, min_stat = 0, max_stat = 0, act = 0, avg = 0, tid = 0\<rparr>\<rparr> 2000))) =
   min_stat (stat (snd (run_cycles [3000, 4100]
     (\<lparr>runtime_us = 900, deadline_us = 1500,
       stat = \<lparr>cycles = 1, min_stat = 0, max_stat = 0, act = 0, avg = 0, tid = 0\<rparr>\<rparr>
      \<lparr>stat := zero_stat\<rparr>) 2000)))"
    by (rule mp [OF imp a0])
  show ?thesis
    by (rule conjI [OF run conjI [OF h2 conjI [OF h3 conjI [OF c conjI [OF v
        conjI [OF h2' conjI [OF a0 m]]]]]]])
qed

subsection \<open>Averages in the two reports\<close>





text \<open>
  \<^verbatim>\<open>write_stats\<close> has no test of the cycle count: on a zeroed slot it would compute
  0.0/0, which is NaN, where \<^verbatim>\<open>print_stat\<close> renders 0. No such slot reaches it:
  \<^verbatim>\<open>main\<close> calls \<^verbatim>\<open>write_stats\<close> only after the setup loop has run \<^verbatim>\<open>do_runtime\<close> on every
  slot, and the theorem of this subsection shows that the count of a slot is then never 0.
\<close>

lemma write_stats_zeroed_slot:
  "write_stats [zero_sched_data] =
     [\<lparr>json_cycles = 0, json_min = 0, json_max = 0, json_avg = NaN\<rparr>] \<and>
   map_option line_avg (print_stat zero_sched_data 0 0) = Some 0"
  by (simp add: write_stats_def write_thread_def print_stat_def zero_sched_data_def
      zero_stat_def double_div_def)




section \<open>Properties of the start-up protocol\<close>

subsection \<open>The invariant\<close>

lemma inv_init: "startup_inv env (init_state env)"
  by (auto simp: startup_inv_def init_state_def)

lemma phase_release_w: "waiting_w pc \<Longrightarrow> phase_w (release_w pc) = Suc (phase_w pc)"
  by (cases pc) simp_all

lemma phase_release_m: "waiting_m pc \<Longrightarrow> phase_m (release_m pc) = Suc (phase_m pc)"
  by (cases pc) simp_all

lemma failed_release_w: "waiting_w pc \<Longrightarrow> setattr_failed (release_w pc) = setattr_failed pc"
  by (cases pc) simp_all

lemma waiting_not_phase3: "waiting_w pc \<Longrightarrow> phase_w pc \<noteq> 3"
  by (cases pc) simp_all

lemma inv_barrier:
  assumes "startup_inv env s"
  shows "startup_inv env (barrier s)"
proof (cases "waiting_m (mpc s) \<and> list_all waiting_w (wpc s)")
  case False
  then show ?thesis using assms by (auto simp: barrier_def)
next
  case True
  then have wm: "waiting_m (mpc s)" and ww: "\<And>pc. pc \<in> set (wpc s) \<Longrightarrow> waiting_w pc"
    by (auto simp: list_all_iff)
  have nocyc: "\<forall>c\<in>set (cycles_run s). c = 0"
  proof (cases "wpc s")
    case Nil
    then show ?thesis using assms by (auto simp: startup_inv_def)
  next
    case (Cons pc pcs)
    then have "pc \<in> set (wpc s)" by simp
    then have "phase_w pc \<noteq> 3" using ww waiting_not_phase3 by blast
    then show ?thesis using assms \<open>pc \<in> set (wpc s)\<close> unfolding startup_inv_def by fastforce
  qed
  have "barrier s = s\<lparr>mpc := release_m (mpc s), wpc := map release_w (wpc s)\<rparr>"
    using True by (simp add: barrier_def)
  then show ?thesis
    using assms wm ww nocyc
    by (auto simp: startup_inv_def phase_release_w phase_release_m failed_release_w)
qed


text \<open>A thread moves within its phase; the flag can only be raised.\<close>

lemma inv_worker_move:
  assumes "startup_inv env s" and "i < length (wpc s)"
    and "wpc s' = (wpc s)[i := new]" and "mpc s' = mpc s" and "cycles_run s' = cycles_run s"
    and "shutdown s \<Longrightarrow> shutdown s'"
    and "phase_w new = phase_w (wpc s ! i)"
    and "setattr_failed new \<Longrightarrow> setattr_failed (wpc s ! i) \<or> (shutdown s' \<and> phase_w new \<noteq> 3)"
  shows "startup_inv env s'"
proof -
  have old: "wpc s ! i \<in> set (wpc s)" using assms(2) by simp
  have mem: "pc \<in> set (wpc s') \<Longrightarrow> pc = new \<or> pc \<in> set (wpc s)" for pc
    unfolding assms(3) using set_update_subset_insert [of "wpc s" i new] by auto
  have lock: "\<forall>pc\<in>set (wpc s'). phase_w pc = phase_m (mpc s')"
    using assms(1,4,7) old mem unfolding startup_inv_def by metis
  have flag: "(\<exists>pc\<in>set (wpc s'). setattr_failed pc) \<longrightarrow> shutdown s'"
    using assms(1,6,8) old mem unfolding startup_inv_def by metis
  have cyc: "(\<exists>c\<in>set (cycles_run s'). 0 < c) \<longrightarrow>
        (\<forall>pc\<in>set (wpc s'). phase_w pc = 3 \<and> \<not> setattr_failed pc)"
  proof (intro impI ballI)
    fix pc
    assume c: "\<exists>c\<in>set (cycles_run s'). 0 < c" and pc: "pc \<in> set (wpc s')"
    from c have "\<exists>c\<in>set (cycles_run s). 0 < c" using assms(5) by simp
    with assms(1) have all3: "\<forall>pc\<in>set (wpc s). phase_w pc = 3 \<and> \<not> setattr_failed pc"
      unfolding startup_inv_def by blast
    show "phase_w pc = 3 \<and> \<not> setattr_failed pc"
    proof (cases "pc \<in> set (wpc s)")
      case True
      then show ?thesis using all3 by blast
    next
      case False
      then have "pc = new" using mem pc by blast
      then show ?thesis using all3 old assms(7,8) by metis
    qed
  qed
  show ?thesis
    unfolding startup_inv_def using assms(1,3,5) lock flag cyc
    by (simp add: startup_inv_def)
qed

lemma inv_main_move:
  assumes "startup_inv env s" and "wpc s' = wpc s" and "cycles_run s' = cycles_run s"
    and "shutdown s \<Longrightarrow> shutdown s'" and "phase_m (mpc s') = phase_m (mpc s)"
  shows "startup_inv env s'"
  using assms unfolding startup_inv_def by auto

lemma inv_cycle:
  assumes "startup_inv env s" and "i < length (wpc s)" and "wpc s ! i = W_loop"
    and "\<not> shutdown s"
  shows "startup_inv env (s\<lparr>cycles_run := (cycles_run s)[i := cycles_run s ! i + 1]\<rparr>)"
proof -
  have "W_loop \<in> set (wpc s)" using assms(2,3) by (metis nth_mem)
  then have "phase_m (mpc s) = 3" using assms(1) unfolding startup_inv_def by fastforce
  then show ?thesis using assms(1,4) unfolding startup_inv_def by auto
qed

lemma inv_step_main:
  assumes "startup_inv env s" and "step_main s = Some s'"
  shows "startup_inv env s'"
proof (cases "mpc s")
  case M_barrier1
  then have "s' = barrier (s\<lparr>mpc := M_wait1\<rparr>)" using assms(2) by simp
  moreover have "startup_inv env (s\<lparr>mpc := M_wait1\<rparr>)"
    by (rule inv_main_move [OF assms(1)]) (simp_all add: M_barrier1)
  ultimately show ?thesis by (simp add: inv_barrier)
next
  case M_cpuset
  then have "s' = barrier (s\<lparr>mpc := M_wait2\<rparr>)" using assms(2) by simp
  moreover have "startup_inv env (s\<lparr>mpc := M_wait2\<rparr>)"
    by (rule inv_main_move [OF assms(1)]) (simp_all add: M_cpuset)
  ultimately show ?thesis by (simp add: inv_barrier)
next
  case M_barrier3
  then have "s' = barrier (s\<lparr>mpc := M_wait3\<rparr>)" using assms(2) by simp
  moreover have "startup_inv env (s\<lparr>mpc := M_wait3\<rparr>)"
    by (rule inv_main_move [OF assms(1)]) (simp_all add: M_barrier3)
  ultimately show ?thesis by (simp add: inv_barrier)
next
  case M_check1
  then have "s' = s\<lparr>mpc := (if shutdown s then M_fatal SetupStep1 else M_cpuset)\<rparr>"
    using assms(2) by simp
  then show ?thesis by (intro inv_main_move [OF assms(1)]) (simp_all add: M_check1)
next
  case M_check2
  then have "s' = s\<lparr>mpc := (if shutdown s then M_fatal SetupStep2 else M_barrier3)\<rparr>"
    using assms(2) by simp
  then show ?thesis by (intro inv_main_move [OF assms(1)]) (simp_all add: M_check2)
next
  case M_signals
  then have "s' = s\<lparr>mpc := M_loop, handlers := True\<rparr>" using assms(2) by simp
  then show ?thesis by (intro inv_main_move [OF assms(1)]) (simp_all add: M_signals)
next
  case M_loop
  then have "s' = s\<lparr>mpc := (if shutdown s then M_join 0 else M_loop)\<rparr>"
    using assms(2) by simp
  then show ?thesis by (intro inv_main_move [OF assms(1)]) (simp_all add: M_loop)
next
  case (M_join i)
  then have "s' = s\<lparr>mpc := M_join (i + 1)\<rparr> \<or> s' = s\<lparr>mpc := M_returned\<rparr>"
    using assms(2) by (auto split: if_splits worker_pc.splits)
  then show ?thesis by (auto intro!: inv_main_move [OF assms(1)] simp: M_join)
qed (use assms(2) in simp_all)


lemma inv_local:
  assumes "startup_inv env s" and "i < length (wpc s)"
    and "phase_w new = phase_w (wpc s ! i)"
    and "setattr_failed new \<Longrightarrow> setattr_failed (wpc s ! i)"
  shows "startup_inv env (s\<lparr>wpc := (wpc s)[i := new]\<rparr>)"
  by (rule inv_worker_move [OF assms(1,2), where new = new]) (use assms(3,4) in simp_all)

lemma inv_arrive:
  assumes "startup_inv env s" and "i < length (wpc s)"
    and "phase_w new = phase_w (wpc s ! i)"
    and "setattr_failed new \<Longrightarrow> setattr_failed (wpc s ! i)"
  shows "startup_inv env (barrier (s\<lparr>wpc := (wpc s)[i := new]\<rparr>))"
  by (rule inv_barrier) (rule inv_local [OF assms])

lemma inv_fail:
  assumes "startup_inv env s" and "i < length (wpc s)"
    and "phase_w new = phase_w (wpc s ! i)" and "phase_w new \<noteq> 3"
  shows "startup_inv env (s\<lparr>shutdown := True, wpc := (wpc s)[i := new]\<rparr>)"
  by (rule inv_worker_move [OF assms(1,2), where new = new]) (use assms(3,4) in simp_all)

lemma inv_step_worker:
  assumes "startup_inv env s" and "step_worker env i s = Some s'"
  shows "startup_inv env s'"
proof -
  from assms(2) have i: "i < length (wpc s)" by (auto split: if_splits)
  show ?thesis
  proof (cases "wpc s ! i")
    case W_getattr
    then have "s' = barrier (s\<lparr>wpc := (wpc s)[i := W_wait1]\<rparr>) \<or>
        s' = s\<lparr>shutdown := True, wpc := (wpc s)[i := W_getattr_failed]\<rparr>"
      using assms(2) by (auto split: if_splits)
    then show ?thesis
      using inv_arrive [OF assms(1) i, of W_wait1] inv_fail [OF assms(1) i, of W_getattr_failed]
      by (auto simp: W_getattr)
  next
    case W_getattr_failed
    then have "s' = barrier (s\<lparr>wpc := (wpc s)[i := W_wait1_failed]\<rparr>)"
      using assms(2) by (auto split: if_splits)
    then show ?thesis
      using inv_arrive [OF assms(1) i, of W_wait1_failed] by (simp add: W_getattr_failed)
  next
    case W_prepare
    then have "s' = barrier (s\<lparr>wpc := (wpc s)[i := W_wait2]\<rparr>)"
      using assms(2) by (auto split: if_splits)
    then show ?thesis
      using inv_arrive [OF assms(1) i, of W_wait2] by (simp add: W_prepare)
  next
    case W_setattr
    then have "s' = barrier (s\<lparr>wpc := (wpc s)[i := W_wait3]\<rparr>) \<or>
        s' = s\<lparr>shutdown := True, wpc := (wpc s)[i := W_setattr_failed]\<rparr>"
      using assms(2) by (auto split: if_splits)
    then show ?thesis
      using inv_arrive [OF assms(1) i, of W_wait3] inv_fail [OF assms(1) i, of W_setattr_failed]
      by (auto simp: W_setattr)
  next
    case W_setattr_failed
    then have "s' = barrier (s\<lparr>wpc := (wpc s)[i := W_wait3_failed]\<rparr>)"
      using assms(2) by (auto split: if_splits)
    then show ?thesis
      using inv_arrive [OF assms(1) i, of W_wait3_failed] by (simp add: W_setattr_failed)
  next
    case (W_exiting msg)
    then have "s' = s\<lparr>wpc := (wpc s)[i := W_exited (Some msg)]\<rparr>"
      using assms(2) by (auto split: if_splits)
    then show ?thesis
      using inv_local [OF assms(1) i, of "W_exited (Some msg)"] by (simp add: W_exiting)
  next
    case W_get_period
    then have "s' = s\<lparr>wpc := (wpc s)[i := W_loop]\<rparr>"
      using assms(2) by (auto split: if_splits)
    then show ?thesis
      using inv_local [OF assms(1) i, of W_loop] by (simp add: W_get_period)
  next
    case W_loop
    show ?thesis
    proof (cases "shutdown s")
      case True
      then have "s' = s\<lparr>wpc := (wpc s)[i := W_getattr2]\<rparr>"
        using assms(2) W_loop by (auto split: if_splits)
      then show ?thesis
        using inv_local [OF assms(1) i, of W_getattr2] by (simp add: W_loop)
    next
      case False
      then have "s' = s\<lparr>cycles_run := (cycles_run s)[i := cycles_run s ! i + 1]\<rparr>"
        using assms(2) W_loop by (auto split: if_splits)
      then show ?thesis using inv_cycle [OF assms(1) i W_loop False] by simp
    qed
  next
    case W_getattr2
    define res where
      "res = (if getattr2_ok (env ! i) then None else Some ''Failed second sched_getattr'')"
    have r: "res \<noteq> Some ''Failed sched_getattr''" "res \<noteq> Some ''Failed sched_setattr''"
      by (simp_all add: res_def)
    have "s' = s\<lparr>wpc := (wpc s)[i := W_exited res]\<rparr>"
      using assms(2) W_getattr2 by (auto split: if_splits simp: res_def)
    then show ?thesis
      using inv_local [OF assms(1) i, of "W_exited res"] r by (simp add: W_getattr2)
  qed (use assms(2) in \<open>auto split: if_splits\<close>)
qed

lemma inv_sys_step:
  assumes "startup_inv env s" and "sys_step env a s = Some s'"
  shows "startup_inv env s'"
proof (cases a)
  case Main
  then show ?thesis using assms inv_step_main by (auto split: if_splits)
next
  case (Worker i)
  then show ?thesis using assms inv_step_worker by auto
next
  case Signal
  then have "s' = s\<lparr>shutdown := True\<rparr>" using assms(2) by (auto split: if_splits)
  then show ?thesis by (intro inv_main_move [OF assms(1)]) simp_all
qed

lemma inv_sys_run:
  "startup_inv env s \<Longrightarrow> sys_run env sched s = Some s' \<Longrightarrow> startup_inv env s'"
proof (induction sched arbitrary: s)
  case Nil
  then show ?case by simp
next
  case (Cons a sched)
  then show ?case by (auto split: option.splits dest: inv_sys_step)
qed

text \<open>
  For any number of threads and any schedule: in a state where the \<^verbatim>\<open>sched_setattr\<close> of
  some thread has failed, no thread has run a cycle of its measurement loop, and none will,
  since the failure stays visible in the program counter of the failed thread.
\<close>

lemma no_cycle_after_setattr_failure:
  assumes "sys_run env sched (init_state env) = Some s"
    and "\<exists>pc\<in>set (wpc s). setattr_failed pc"
  shows "\<forall>c\<in>set (cycles_run s). c = 0"
proof -
  have "startup_inv env s" by (rule inv_sys_run [OF inv_init assms(1)])
  then show ?thesis using assms(2) unfolding startup_inv_def by fastforce
qed

subsection \<open>Nobody hangs\<close>

lemma binv_init: "barrier_inv (init_state env)"
  by (auto simp: barrier_inv_def init_state_def)

lemma getattr_failed_release: "waiting_w pc \<Longrightarrow> getattr_failed (release_w pc) = getattr_failed pc"
  by (cases pc) simp_all

lemma release_m_not_waiting: "waiting_m pc \<Longrightarrow> \<not> waiting_m (release_m pc)"
  by (cases pc) simp_all

lemma passed_release_m: "waiting_m pc \<Longrightarrow> passed_check1 (release_m pc) = passed_check1 pc"
  by (cases pc) simp_all

lemma binv_barrier:
  assumes "(\<exists>pc\<in>set (wpc s). getattr_failed pc) \<longrightarrow> shutdown s \<and> \<not> passed_check1 (mpc s)"
  shows "barrier_inv (barrier s)"
proof (cases "waiting_m (mpc s) \<and> list_all waiting_w (wpc s)")
  case False
  then show ?thesis using assms by (auto simp: barrier_def barrier_inv_def)
next
  case True
  then have ww: "\<And>pc. pc \<in> set (wpc s) \<Longrightarrow> waiting_w pc" by (auto simp: list_all_iff)
  have "barrier s = s\<lparr>mpc := release_m (mpc s), wpc := map release_w (wpc s)\<rparr>"
    using True by (simp add: barrier_def)
  then show ?thesis
    using assms True ww
    by (auto simp: barrier_inv_def release_m_not_waiting passed_release_m getattr_failed_release)
qed


lemma binv_worker_move:
  assumes "barrier_inv s" and "i < length (wpc s)"
    and "wpc s' = (wpc s)[i := new]" and "mpc s' = mpc s"
    and "shutdown s \<Longrightarrow> shutdown s'"
    and "\<not> waiting_w new"
    and "getattr_failed new \<Longrightarrow>
           getattr_failed (wpc s ! i) \<or> (shutdown s' \<and> \<not> passed_check1 (mpc s))"
  shows "barrier_inv s'"
proof -
  have old: "wpc s ! i \<in> set (wpc s)" using assms(2) by simp
  have mem: "pc \<in> set (wpc s') \<Longrightarrow> pc = new \<or> pc \<in> set (wpc s)" for pc
    unfolding assms(3) using set_update_subset_insert [of "wpc s" i new] by auto
  have "new \<in> set (wpc s')" unfolding assms(3) using assms(2) by (simp add: set_update_memI)
  then have "\<not> list_all waiting_w (wpc s')" using assms(6) by (auto simp: list_all_iff)
  moreover have "(\<exists>pc\<in>set (wpc s'). getattr_failed pc) \<longrightarrow>
      shutdown s' \<and> \<not> passed_check1 (mpc s')"
    using assms(1,4,5,7) old mem unfolding barrier_inv_def by metis
  ultimately show ?thesis unfolding barrier_inv_def by blast
qed

lemma binv_worker_arrive:
  assumes "barrier_inv s" and "i < length (wpc s)"
    and "getattr_failed new \<Longrightarrow> getattr_failed (wpc s ! i)"
  shows "barrier_inv (barrier (s\<lparr>wpc := (wpc s)[i := new]\<rparr>))"
proof (rule binv_barrier)
  let ?s = "s\<lparr>wpc := (wpc s)[i := new]\<rparr>"
  have old: "wpc s ! i \<in> set (wpc s)" using assms(2) by simp
  have mem: "pc \<in> set (wpc ?s) \<Longrightarrow> pc = new \<or> pc \<in> set (wpc s)" for pc
    using set_update_subset_insert [of "wpc s" i new] by auto
  have "(\<exists>pc\<in>set (wpc ?s). getattr_failed pc) \<Longrightarrow> (\<exists>pc\<in>set (wpc s). getattr_failed pc)"
    using assms(3) old mem by metis
  then show "(\<exists>pc\<in>set (wpc ?s). getattr_failed pc) \<longrightarrow>
      shutdown ?s \<and> \<not> passed_check1 (mpc ?s)"
    using assms(1) unfolding barrier_inv_def by auto
qed

lemma binv_main_move:
  assumes "barrier_inv s" and "wpc s' = wpc s" and "shutdown s \<Longrightarrow> shutdown s'"
    and "\<not> waiting_m (mpc s')"
    and "passed_check1 (mpc s') \<Longrightarrow> passed_check1 (mpc s) \<or> \<not> shutdown s"
  shows "barrier_inv s'"
  using assms unfolding barrier_inv_def by auto

lemma binv_main_arrive:
  assumes "barrier_inv s" and "passed_check1 new \<Longrightarrow> passed_check1 (mpc s)"
  shows "barrier_inv (barrier (s\<lparr>mpc := new\<rparr>))"
  by (rule binv_barrier) (use assms in \<open>auto simp: barrier_inv_def\<close>)

lemma binv_step_main:
  assumes "barrier_inv s" and "step_main s = Some s'"
  shows "barrier_inv s'"
proof (cases "mpc s")
  case M_barrier1
  then show ?thesis using assms(2) binv_main_arrive [OF assms(1), of M_wait1] by simp
next
  case M_cpuset
  then show ?thesis using assms(2) binv_main_arrive [OF assms(1), of M_wait2] by simp
next
  case M_barrier3
  then show ?thesis using assms(2) binv_main_arrive [OF assms(1), of M_wait3] by simp
next
  case M_check1
  then have "s' = s\<lparr>mpc := (if shutdown s then M_fatal SetupStep1 else M_cpuset)\<rparr>"
    using assms(2) by simp
  then show ?thesis
    by (intro binv_main_move [OF assms(1)]) (auto simp: M_check1 split: if_splits)
next
  case M_check2
  then have "s' = s\<lparr>mpc := (if shutdown s then M_fatal SetupStep2 else M_barrier3)\<rparr>"
    using assms(2) by simp
  then show ?thesis
    by (intro binv_main_move [OF assms(1)]) (auto simp: M_check2 split: if_splits)
next
  case M_signals
  then have "s' = s\<lparr>mpc := M_loop, handlers := True\<rparr>" using assms(2) by simp
  then show ?thesis by (intro binv_main_move [OF assms(1)]) (simp_all add: M_signals)
next
  case M_loop
  then have "s' = s\<lparr>mpc := (if shutdown s then M_join 0 else M_loop)\<rparr>"
    using assms(2) by simp
  then show ?thesis by (intro binv_main_move [OF assms(1)]) (simp_all add: M_loop)
next
  case (M_join i)
  then have "s' = s\<lparr>mpc := M_join (i + 1)\<rparr> \<or> s' = s\<lparr>mpc := M_returned\<rparr>"
    using assms(2) by (auto split: if_splits worker_pc.splits)
  then show ?thesis by (auto intro!: binv_main_move [OF assms(1)] simp: M_join)
qed (use assms(2) in simp_all)

lemma phase0_not_passed: "phase_m pc = 0 \<Longrightarrow> \<not> passed_check1 pc"
  by (cases pc) (simp_all split: if_splits)

lemma binv_step_worker:
  assumes "startup_inv env s" and "barrier_inv s" and "step_worker env i s = Some s'"
  shows "barrier_inv s'"
proof -
  from assms(3) have i: "i < length (wpc s)" by (auto split: if_splits)
  note local = binv_worker_move [OF assms(2) i]
  note arrive = binv_worker_arrive [OF assms(2) i]
  show ?thesis
  proof (cases "wpc s ! i")
    case W_getattr
    then have "W_getattr \<in> set (wpc s)" using i by (metis nth_mem)
    then have "phase_m (mpc s) = 0" using assms(1) unfolding startup_inv_def by fastforce
    then have np: "\<not> passed_check1 (mpc s)" by (rule phase0_not_passed)
    have "s' = barrier (s\<lparr>wpc := (wpc s)[i := W_wait1]\<rparr>) \<or>
        s' = s\<lparr>shutdown := True, wpc := (wpc s)[i := W_getattr_failed]\<rparr>"
      using assms(3) W_getattr by (auto split: if_splits)
    then show ?thesis
      using arrive [of W_wait1] local [of _ W_getattr_failed] np by auto
  next
    case W_getattr_failed
    then have "s' = barrier (s\<lparr>wpc := (wpc s)[i := W_wait1_failed]\<rparr>)"
      using assms(3) by (auto split: if_splits)
    then show ?thesis using arrive [of W_wait1_failed] by (simp add: W_getattr_failed)
  next
    case W_prepare
    then have "s' = barrier (s\<lparr>wpc := (wpc s)[i := W_wait2]\<rparr>)"
      using assms(3) by (auto split: if_splits)
    then show ?thesis using arrive [of W_wait2] by simp
  next
    case W_setattr
    then have "s' = barrier (s\<lparr>wpc := (wpc s)[i := W_wait3]\<rparr>) \<or>
        s' = s\<lparr>shutdown := True, wpc := (wpc s)[i := W_setattr_failed]\<rparr>"
      using assms(3) by (auto split: if_splits)
    then show ?thesis
      using arrive [of W_wait3] local [of _ W_setattr_failed] by auto
  next
    case W_setattr_failed
    then have "s' = barrier (s\<lparr>wpc := (wpc s)[i := W_wait3_failed]\<rparr>)"
      using assms(3) by (auto split: if_splits)
    then show ?thesis using arrive [of W_wait3_failed] by simp
  next
    case (W_exiting msg)
    then have "s' = s\<lparr>wpc := (wpc s)[i := W_exited (Some msg)]\<rparr>"
      using assms(3) by (auto split: if_splits)
    then show ?thesis using local [of _ "W_exited (Some msg)"] by (simp add: W_exiting)
  next
    case W_get_period
    then have "s' = s\<lparr>wpc := (wpc s)[i := W_loop]\<rparr>"
      using assms(3) by (auto split: if_splits)
    then show ?thesis using local [of _ W_loop] by simp
  next
    case W_loop
    show ?thesis
    proof (cases "shutdown s")
      case True
      then have "s' = s\<lparr>wpc := (wpc s)[i := W_getattr2]\<rparr>"
        using assms(3) W_loop by (auto split: if_splits)
      then show ?thesis using local [of _ W_getattr2] by simp
    next
      case False
      then have "s' = s\<lparr>cycles_run := (cycles_run s)[i := cycles_run s ! i + 1]\<rparr>"
        using assms(3) W_loop by (auto split: if_splits)
      then show ?thesis using assms(2) by (simp add: barrier_inv_def)
    qed
  next
    case W_getattr2
    define res where
      "res = (if getattr2_ok (env ! i) then None else Some ''Failed second sched_getattr'')"
    have r: "res \<noteq> Some ''Failed sched_getattr''" by (simp add: res_def)
    have "s' = s\<lparr>wpc := (wpc s)[i := W_exited res]\<rparr>"
      using assms(3) W_getattr2 by (auto split: if_splits simp: res_def)
    then show ?thesis using local [of _ "W_exited res"] r by simp
  qed (use assms(3) in \<open>auto split: if_splits\<close>)
qed

lemma binv_sys_step:
  assumes "startup_inv env s" and "barrier_inv s" and "sys_step env a s = Some s'"
  shows "barrier_inv s'"
proof (cases a)
  case Main
  then show ?thesis using assms binv_step_main by (auto split: if_splits)
next
  case (Worker i)
  then show ?thesis using assms binv_step_worker by auto
next
  case Signal
  then have "s' = s\<lparr>shutdown := True\<rparr>" using assms(3) by (auto split: if_splits)
  then show ?thesis using assms(2) by (auto simp: barrier_inv_def)
qed

lemma invs_sys_run:
  "startup_inv env s \<Longrightarrow> barrier_inv s \<Longrightarrow> sys_run env sched s = Some s' \<Longrightarrow>
   startup_inv env s' \<and> barrier_inv s'"
proof (induction sched arbitrary: s)
  case Nil
  then show ?case by simp
next
  case (Cons a sched)
  then show ?case
    by (auto split: option.splits dest: inv_sys_step binv_sys_step)
qed


lemma worker_enabled:
  assumes "\<not> process_gone (mpc s)" and "j < length (wpc s)" and "j < length env"
    and "\<not> waiting_w (wpc s ! j)" and "\<And>res. wpc s ! j \<noteq> W_exited res"
  shows "\<exists>s'. step_worker env j s = Some s'"
  using assms by (cases "wpc s ! j") auto

text \<open>
  As long as \<^verbatim>\<open>main\<close> has not ended the process, some participant can take a step: whoever is
  blocked at the barrier or in \<^verbatim>\<open>pthread_join\<close> waits for a thread that is still running.
\<close>

lemma some_thread_enabled:
  assumes "startup_inv env s" and "barrier_inv s" and "\<not> process_gone (mpc s)"
  shows "\<exists>a s'. a \<noteq> Signal \<and> sys_step env a s = Some s'"
proof -
  have len: "length (wpc s) = length env" using assms(1) by (simp add: startup_inv_def)
  have lock: "\<And>pc. pc \<in> set (wpc s) \<Longrightarrow> phase_w pc = phase_m (mpc s)"
    using assms(1) by (simp add: startup_inv_def)
  have via_worker: "\<exists>a s'. a \<noteq> Signal \<and> sys_step env a s = Some s'"
    if "j < length (wpc s)" "\<not> waiting_w (wpc s ! j)" "\<And>res. wpc s ! j \<noteq> W_exited res" for j
  proof -
    from worker_enabled [OF assms(3) that(1) _ that(2,3)] len that(1)
    obtain s' where "step_worker env j s = Some s'" by auto
    then have "sys_step env (Worker j) s = Some s'" by simp
    then show ?thesis by blast
  qed
  have via_main: "\<exists>a s'. a \<noteq> Signal \<and> sys_step env a s = Some s'"
    if "step_main s = Some s'" for s'
    using that assms(3) by (intro exI [of _ Main] exI [of _ s']) simp
  have blocked: "\<exists>a s'. a \<noteq> Signal \<and> sys_step env a s = Some s'"
    if w: "waiting_m (mpc s)"
  proof -
    from assms(2) w have "\<not> list_all waiting_w (wpc s)" by (simp add: barrier_inv_def)
    then obtain j where j: "j < length (wpc s)" and nw: "\<not> waiting_w (wpc s ! j)"
      by (auto simp: list_all_length)
    have ph: "phase_w (wpc s ! j) = phase_m (mpc s)" using lock j by simp
    have "wpc s ! j \<noteq> W_exited res" for res
    proof
      assume ex: "wpc s ! j = W_exited res"
      with ph w have "res = Some ''Failed sched_getattr''"
        by (cases "mpc s") (simp_all split: if_splits)
      with ex have "getattr_failed (wpc s ! j)" by simp
      then have "\<not> passed_check1 (mpc s)"
        using assms(2) j unfolding barrier_inv_def by (metis nth_mem)
      moreover have "phase_m (mpc s) = 1" using ph ex \<open>res = _\<close> by simp
      ultimately show False using w by (cases "mpc s") simp_all
    qed
    then show ?thesis using via_worker [OF j nw] by blast
  qed
  show ?thesis
  proof (cases "mpc s")
    case (M_join i)
    show ?thesis
    proof (cases "i < length (wpc s)")
      case False
      then show ?thesis using via_main [of "s\<lparr>mpc := M_returned\<rparr>"] M_join by simp
    next
      case True
      show ?thesis
      proof (cases "\<exists>res. wpc s ! i = W_exited res")
        case True
        then show ?thesis
          using via_main [of "s\<lparr>mpc := M_join (i + 1)\<rparr>"] M_join \<open>i < length (wpc s)\<close>
          by auto
      next
        case False
        have "phase_w (wpc s ! i) = 3" using lock True M_join by simp
        then have "\<not> waiting_w (wpc s ! i)" using waiting_not_phase3 by blast
        then show ?thesis using via_worker [OF True] False by blast
      qed
    qed
  next
    case M_returned
    then show ?thesis using assms(3) by simp
  next
    case (M_fatal f)
    then show ?thesis using assms(3) by simp
  qed (use via_main blocked in simp_all)
qed


text \<open>Once the flag is up, every step uses up some of the steps that remain.\<close>

lemma rank_release_w: "rank_w (release_w pc) \<le> rank_w pc"
  by (cases pc) simp_all

lemma rank_release_m: "rank_m n (release_m pc) \<le> rank_m n pc"
  by (cases pc) simp_all

lemma sum_rank_release: "(\<Sum>pc\<leftarrow>map release_w pcs. rank_w pc) \<le> (\<Sum>pc\<leftarrow>pcs. rank_w pc)"
  by (induction pcs) (simp_all add: add_mono rank_release_w)

lemma remaining_barrier: "remaining (barrier s) \<le> remaining s"
  using rank_release_m [of "length (wpc s)" "mpc s"] sum_rank_release [of "wpc s"]
  by (simp add: barrier_def remaining_def)

lemma sum_rank_update:
  "i < length pcs \<Longrightarrow> rank_w new < rank_w (pcs ! i) \<Longrightarrow>
   (\<Sum>pc\<leftarrow>pcs[i := new]. rank_w pc) < (\<Sum>pc\<leftarrow>pcs. rank_w pc)"
proof (induction pcs arbitrary: i)
  case Nil
  then show ?case by simp
next
  case (Cons pc pcs)
  then show ?case by (cases i) auto
qed

lemma remaining_worker_move:
  assumes "i < length (wpc s)" and "rank_w new < rank_w (wpc s ! i)"
  shows "remaining (s\<lparr>wpc := (wpc s)[i := new]\<rparr>) < remaining s"
  using sum_rank_update [OF assms] by (simp add: remaining_def)

lemma remaining_worker_arrive:
  assumes "i < length (wpc s)" and "rank_w new < rank_w (wpc s ! i)"
  shows "remaining (barrier (s\<lparr>wpc := (wpc s)[i := new]\<rparr>)) < remaining s"
  using remaining_worker_move [OF assms] remaining_barrier [of "s\<lparr>wpc := (wpc s)[i := new]\<rparr>"]
  by linarith

lemma remaining_main_move:
  assumes "rank_m (length (wpc s)) new < rank_m (length (wpc s)) (mpc s)"
  shows "remaining (s\<lparr>mpc := new\<rparr>) < remaining s"
  using assms by (simp add: remaining_def)

lemma remaining_main_arrive:
  assumes "rank_m (length (wpc s)) new < rank_m (length (wpc s)) (mpc s)"
  shows "remaining (barrier (s\<lparr>mpc := new\<rparr>)) < remaining s"
  using remaining_main_move [OF assms] remaining_barrier [of "s\<lparr>mpc := new\<rparr>"] by linarith

lemma shutdown_barrier: "shutdown (barrier s) = shutdown s"
  by (simp add: barrier_def)

lemma remaining_shutdown:
  "remaining (s\<lparr>shutdown := b, wpc := pcs\<rparr>) = remaining (s\<lparr>wpc := pcs\<rparr>)"
  by (simp add: remaining_def)

lemma remaining_step_main:
  assumes "shutdown s" and "step_main s = Some s'"
  shows "remaining s' < remaining s \<and> shutdown s'"
proof (cases "mpc s")
  case M_barrier1
  then have "s' = barrier (s\<lparr>mpc := M_wait1\<rparr>)" using assms(2) by simp
  then show ?thesis
    using assms(1) remaining_main_arrive [of s M_wait1] by (simp add: shutdown_barrier M_barrier1)
next
  case M_cpuset
  then have "s' = barrier (s\<lparr>mpc := M_wait2\<rparr>)" using assms(2) by simp
  then show ?thesis
    using assms(1) remaining_main_arrive [of s M_wait2] by (simp add: shutdown_barrier M_cpuset)
next
  case M_barrier3
  then have "s' = barrier (s\<lparr>mpc := M_wait3\<rparr>)" using assms(2) by simp
  then show ?thesis
    using assms(1) remaining_main_arrive [of s M_wait3] by (simp add: shutdown_barrier M_barrier3)
next
  case M_check1
  then have "s' = s\<lparr>mpc := M_fatal SetupStep1\<rparr>" using assms by simp
  then show ?thesis using assms(1) by (simp add: remaining_def M_check1)
next
  case M_check2
  then have "s' = s\<lparr>mpc := M_fatal SetupStep2\<rparr>" using assms by simp
  then show ?thesis using assms(1) by (simp add: remaining_def M_check2)
next
  case M_signals
  then have "s' = s\<lparr>mpc := M_loop, handlers := True\<rparr>" using assms(2) by simp
  then show ?thesis using assms(1) by (simp add: remaining_def M_signals)
next
  case M_loop
  then have "s' = s\<lparr>mpc := M_join 0\<rparr>" using assms by simp
  then show ?thesis using assms(1) by (simp add: remaining_def M_loop)
next
  case (M_join i)
  then have "(i < length (wpc s) \<and> s' = s\<lparr>mpc := M_join (i + 1)\<rparr>) \<or>
      (\<not> i < length (wpc s) \<and> s' = s\<lparr>mpc := M_returned\<rparr>)"
    using assms(2) by (auto split: if_splits worker_pc.splits)
  then show ?thesis using assms(1) by (auto simp: remaining_def M_join)
qed (use assms(2) in simp_all)

lemma remaining_step_worker:
  assumes "shutdown s" and "step_worker env i s = Some s'"
  shows "remaining s' < remaining s \<and> shutdown s'"
proof -
  from assms(2) have i: "i < length (wpc s)" by (auto split: if_splits)
  note move = remaining_worker_move [OF i]
  note arrive = remaining_worker_arrive [OF i]
  show ?thesis
  proof (cases "wpc s ! i")
    case W_getattr
    then have "s' = barrier (s\<lparr>wpc := (wpc s)[i := W_wait1]\<rparr>) \<or>
        s' = s\<lparr>shutdown := True, wpc := (wpc s)[i := W_getattr_failed]\<rparr>"
      using assms(2) by (auto split: if_splits)
    then show ?thesis
      using assms(1) arrive [of W_wait1] move [of W_getattr_failed]
      by (auto simp: shutdown_barrier remaining_shutdown W_getattr)
  next
    case W_getattr_failed
    then have "s' = barrier (s\<lparr>wpc := (wpc s)[i := W_wait1_failed]\<rparr>)"
      using assms(2) by (auto split: if_splits)
    then show ?thesis
      using assms(1) arrive [of W_wait1_failed] by (simp add: shutdown_barrier W_getattr_failed)
  next
    case W_prepare
    then have "s' = barrier (s\<lparr>wpc := (wpc s)[i := W_wait2]\<rparr>)"
      using assms(2) by (auto split: if_splits)
    then show ?thesis
      using assms(1) arrive [of W_wait2] by (simp add: shutdown_barrier W_prepare)
  next
    case W_setattr
    then have "s' = barrier (s\<lparr>wpc := (wpc s)[i := W_wait3]\<rparr>) \<or>
        s' = s\<lparr>shutdown := True, wpc := (wpc s)[i := W_setattr_failed]\<rparr>"
      using assms(2) by (auto split: if_splits)
    then show ?thesis
      using assms(1) arrive [of W_wait3] move [of W_setattr_failed]
      by (auto simp: shutdown_barrier remaining_shutdown W_setattr)
  next
    case W_setattr_failed
    then have "s' = barrier (s\<lparr>wpc := (wpc s)[i := W_wait3_failed]\<rparr>)"
      using assms(2) by (auto split: if_splits)
    then show ?thesis
      using assms(1) arrive [of W_wait3_failed] by (simp add: shutdown_barrier W_setattr_failed)
  next
    case (W_exiting msg)
    then have "s' = s\<lparr>wpc := (wpc s)[i := W_exited (Some msg)]\<rparr>"
      using assms(2) by (auto split: if_splits)
    then show ?thesis
      using assms(1) move [of "W_exited (Some msg)"] by (simp add: W_exiting)
  next
    case W_get_period
    then have "s' = s\<lparr>wpc := (wpc s)[i := W_loop]\<rparr>"
      using assms(2) by (auto split: if_splits)
    then show ?thesis using assms(1) move [of W_loop] by (simp add: W_get_period)
  next
    case W_loop
    then have "s' = s\<lparr>wpc := (wpc s)[i := W_getattr2]\<rparr>"
      using assms by (auto split: if_splits)
    then show ?thesis using assms(1) move [of W_getattr2] by (simp add: W_loop)
  next
    case W_getattr2
    define res where
      "res = (if getattr2_ok (env ! i) then None else Some ''Failed second sched_getattr'')"
    have "s' = s\<lparr>wpc := (wpc s)[i := W_exited res]\<rparr>"
      using assms(2) W_getattr2 by (auto split: if_splits simp: res_def)
    then show ?thesis using assms(1) move [of "W_exited res"] by (simp add: W_getattr2)
  qed (use assms(2) in \<open>auto split: if_splits\<close>)
qed

lemma remaining_sys_run:
  "shutdown s \<Longrightarrow> Signal \<notin> set sched \<Longrightarrow> sys_run env sched s = Some s' \<Longrightarrow>
   length sched + remaining s' \<le> remaining s"
proof (induction sched arbitrary: s)
  case Nil
  then show ?case by simp
next
  case (Cons a sched)
  from Cons.prems(3) obtain s1 where s1: "sys_step env a s = Some s1"
    and rest: "sys_run env sched s1 = Some s'"
    by (auto split: option.splits)
  have dec: "remaining s1 < remaining s \<and> shutdown s1"
  proof (cases a)
    case Main
    then have "step_main s = Some s1" using s1 by (simp split: if_splits)
    then show ?thesis using Cons.prems(1) by (rule remaining_step_main [rotated])
  next
    case (Worker i)
    then have "step_worker env i s = Some s1" using s1 by simp
    then show ?thesis using Cons.prems(1) by (rule remaining_step_worker [rotated])
  next
    case Signal
    then show ?thesis using Cons.prems(2) by simp
  qed
  have "Signal \<notin> set sched" using Cons.prems(2) by simp
  with dec rest have "length sched + remaining s' \<le> remaining s1"
    using Cons.IH [of s1] by blast
  with dec show ?case by simp
qed

lemma shutdown_of_setattr_failure:
  "startup_inv env s \<Longrightarrow> \<exists>pc\<in>set (wpc s). setattr_failed pc \<Longrightarrow> shutdown s"
  by (simp add: startup_inv_def)

text \<open>
  For any number of threads and any schedule: after a failed \<^verbatim>\<open>sched_setattr\<close> somebody can
  always take a step until \<^verbatim>\<open>main\<close> has returned or called \<^verbatim>\<open>fatal\<close>, and the number of steps
  that main and the threads can still take is bounded. So the run ends, with nobody left
  blocked at a barrier.
\<close>

lemma no_hang_after_setattr_failure:
  assumes "sys_run env sched (init_state env) = Some s"
    and "\<exists>pc\<in>set (wpc s). setattr_failed pc"
  shows "(\<not> process_gone (mpc s) \<longrightarrow> (\<exists>a s'. a \<noteq> Signal \<and> sys_step env a s = Some s')) \<and>
         (\<forall>more s'. Signal \<notin> set more \<and> sys_run env more s = Some s' \<longrightarrow>
            length more \<le> remaining s)"
proof -
  have invs: "startup_inv env s \<and> barrier_inv s"
    by (rule invs_sys_run [OF inv_init binv_init assms(1)])
  then have sh: "shutdown s" using assms(2) shutdown_of_setattr_failure by blast
  show ?thesis
  proof (intro conjI impI allI)
    assume "\<not> process_gone (mpc s)"
    then show "\<exists>a s'. a \<noteq> Signal \<and> sys_step env a s = Some s'"
      using invs some_thread_enabled by blast
  next
    fix more s'
    assume "Signal \<notin> set more \<and> sys_run env more s = Some s'"
    then show "length more \<le> remaining s"
      using remaining_sys_run [OF sh, of more env s'] by simp
  qed
qed

subsection \<open>What main does after a failure\<close>

text \<open>
  When \<^verbatim>\<open>sched_setattr\<close> fails in a thread before \<^verbatim>\<open>main\<close> has made its "step 2" test, the
  test sees the flag and ends the process.
\<close>

lemma setattr_failure_seen_at_step2:
  "sys_run [\<lparr>getattr_ok = True, setattr_ok = False, getattr2_ok = True\<rparr>]
     [Worker 0, Main, Main, Main, Worker 0, Worker 0, Main]
     (init_state [\<lparr>getattr_ok = True, setattr_ok = False, getattr2_ok = True\<rparr>]) =
   Some \<lparr>shutdown = True, mpc = M_fatal SetupStep2, wpc = [W_setattr_failed],
          cycles_run = [0], handlers = False\<rparr>"
  by code_simp

text \<open>
  Claim C2 says that after a failed \<^verbatim>\<open>sched_setattr\<close> the coordinator checks the flag
  right after the barrier that follows the application of the attributes, and aborts the
  run. In \<^verbatim>\<open>main\<close> the "step 2" test stands before that (third) barrier, not after it, and
  nothing tests the flag after it. In the schedule below, with one thread, \<^verbatim>\<open>main\<close> makes
  the "step 2" test before the thread's \<^verbatim>\<open>sched_setattr\<close> has failed. The thread then sets
  the flag, both meet at the third barrier, the thread exits with its message without having
  run a cycle, and \<^verbatim>\<open>main\<close> goes on to install the signal handlers, leaves \<^verbatim>\<open>loop\<close> at
  its first test, joins the thread and returns 0: the run is not aborted.
\<close>

theorem setattr_failure_run_returns_normally:
  "sys_run [\<lparr>getattr_ok = True, setattr_ok = False, getattr2_ok = True\<rparr>]
     [Worker 0, Main, Main, Main, Worker 0, Main, Worker 0, Worker 0, Main, Main, Main,
      Worker 0, Main, Main]
     (init_state [\<lparr>getattr_ok = True, setattr_ok = False, getattr2_ok = True\<rparr>]) =
   Some \<lparr>shutdown = True, mpc = M_returned, wpc = [W_exited (Some ''Failed sched_setattr'')],
          cycles_run = [0], handlers = True\<rparr>"
  by code_simp

end
